theory Spec2Isabelle
  imports Main "HOL-Library.AList"
begin

section \<open>Python values used by the program\<close>

text \<open>
  A Python \<^verbatim>\<open>dict\<close> keeps its keys in insertion order, \<^verbatim>\<open>d[k] = v\<close> overwrites in
  place or appends, and \<^verbatim>\<open>d.pop(k)\<close> removes the entry. An association list with
  \<^const>\<open>AList.update\<close>, \<^const>\<open>AList.delete\<close> and \<^const>\<open>map_of\<close> behaves the same way, and
  it can be iterated, which \<^verbatim>\<open>compare\<close> needs. Strings are lists of characters, ASNs
  are Python's unbounded integers.
\<close>

type_synonym ('k, 'v) dict = "('k \<times> 'v) list"

datatype error = ValueError | IndexError | KeyError | AttributeError | NotImplementedError

text \<open>\<^verbatim>\<open>k in d\<close> for a dict.\<close>

definition has_key :: "('k, 'v) dict \<Rightarrow> 'k \<Rightarrow> bool" where
  "has_key d k = (map_of d k \<noteq> None)"

text \<open>Reading \<^verbatim>\<open>d[k]\<close> from a \<^verbatim>\<open>defaultdict(int)\<close>: a missing key reads as 0.\<close>

definition get0 :: "('k, int) dict \<Rightarrow> 'k \<Rightarrow> int" where
  "get0 d k = (case map_of d k of None \<Rightarrow> 0 | Some c \<Rightarrow> c)"

text \<open>\<^verbatim>\<open>d[k] += 1\<close> on a \<^verbatim>\<open>defaultdict(int)\<close>.\<close>

definition bump :: "('k, int) dict \<Rightarrow> 'k \<Rightarrow> ('k, int) dict" where
  "bump d k = AList.update k (get0 d k + 1) d"

section \<open>Python text functions used by the RIB store\<close>

text \<open>
  A character is a code point below 256. \<^verbatim>\<open>str.strip\<close> and \<^verbatim>\<open>str.rstrip\<close> take
  the following ones for white space.
\<close>

definition is_space :: "char \<Rightarrow> bool" where
  "is_space c = (c \<in> set [CHR 0x09, CHR 0x0A, CHR 0x0B, CHR 0x0C, CHR 0x0D, CHR 0x1C, CHR 0x1D,
                           CHR 0x1E, CHR 0x1F, CHR 0x20, CHR 0x85, CHR 0xA0])"

definition py_rstrip :: "string \<Rightarrow> string" where
  "py_rstrip s = rev (dropWhile is_space (rev s))"

definition py_strip :: "string \<Rightarrow> string" where
  "py_strip s = py_rstrip (dropWhile is_space s)"

text \<open>\<^verbatim>\<open>s.split(sep)\<close> for a separator of one character: the result is never empty, and
  two separators in a row give an empty string between them.\<close>

fun py_split :: "char \<Rightarrow> string \<Rightarrow> string list" where
  "py_split sep [] = [[]]"
| "py_split sep (c # cs) =
     (if c = sep then [] # py_split sep cs
      else (case py_split sep cs of w # ws \<Rightarrow> (c # w) # ws | [] \<Rightarrow> [[c]]))"

text \<open>
  \<^verbatim>\<open>int(s)\<close> for a string, in base 10, as CPython 3.11 reads it. The white space
  around the numeral is dropped; for \<^verbatim>\<open>int\<close> that is the ASCII white space and, of the
  other code points below 256, U+0085 and U+00A0, but not U+001C to U+001F, which
  \<^verbatim>\<open>str.strip\<close> drops. One sign may come first, the digits follow, and one underscore
  may stand between two digits. A numeral of more than 4300 digits (the default of
  \<^verbatim>\<open>sys.get_int_max_str_digits()\<close>; underscores, sign and white space do not count) is
  refused. Anything that is not read raises \<^verbatim>\<open>ValueError\<close>: the result \<open>None\<close>.
\<close>

definition is_int_space :: "char \<Rightarrow> bool" where
  "is_int_space c = (c \<in> set [CHR 0x09, CHR 0x0A, CHR 0x0B, CHR 0x0C, CHR 0x0D, CHR 0x20,
                               CHR 0x85, CHR 0xA0])"

definition int_strip :: "string \<Rightarrow> string" where
  "int_strip s = rev (dropWhile is_int_space (rev (dropWhile is_int_space s)))"

definition int_max_str_digits :: nat where
  "int_max_str_digits = 4300"

definition is_digit :: "char \<Rightarrow> bool" where
  "is_digit c = (c \<in> set ''0123456789'')"

definition digit_val :: "char \<Rightarrow> int" where
  "digit_val c = int (of_char c) - 48"

fun py_digits :: "int \<Rightarrow> string \<Rightarrow> int option" where
  "py_digits acc [] = Some acc"
| "py_digits acc (c # cs) =
     (if is_digit c then py_digits (10 * acc + digit_val c) cs
      else if c = CHR ''_'' then
        (case cs of
           d # ds \<Rightarrow> if is_digit d then py_digits (10 * acc + digit_val d) ds else None
         | [] \<Rightarrow> None)
      else None)"

definition py_numeral :: "string \<Rightarrow> int option" where
  "py_numeral s =
     (case s of
        c # cs \<Rightarrow>
          if is_digit c \<and> length (filter is_digit s) \<le> int_max_str_digits
          then py_digits (digit_val c) cs else None
      | [] \<Rightarrow> None)"

definition py_int :: "string \<Rightarrow> int option" where
  "py_int s =
     (case int_strip s of
        [] \<Rightarrow> None
      | c # cs \<Rightarrow>
          if c = CHR ''-'' then map_option uminus (py_numeral cs)
          else if c = CHR ''+'' then py_numeral cs
          else py_numeral (c # cs))"

text \<open>\<^verbatim>\<open>itertools.groupby(xs)\<close>: the runs of equal consecutive elements, each with its key.\<close>

fun groupby :: "'a list \<Rightarrow> ('a \<times> 'a list) list" where
  "groupby [] = []"
| "groupby (x # xs) =
     (case groupby xs of
        (k, g) # rest \<Rightarrow> if x = k then (k, x # g) # rest else (x, [x]) # (k, g) # rest
      | [] \<Rightarrow> [(x, [x])])"

section \<open>Observers (src/observers)\<close>

datatype family = IPv4 | IPv6

subsection \<open>The networkx graphs behind the graph observers\<close>

text \<open>
  \<^verbatim>\<open>nx.Graph\<close> and \<^verbatim>\<open>nx.MultiGraph\<close> are undirected: \<^verbatim>\<open>G[u][v]\<close> and \<^verbatim>\<open>G[v][u]\<close> are one
  attribute dict. The model keeps the vertices and one entry per edge, keyed by the
  unordered pair of its ends (\<open>ekey\<close>); the value is the edge's \<^verbatim>\<open>paths_count\<close>. For
  the multigraph the key also carries the edge key \<^verbatim>\<open>f"{rc}_{peer_ip}"\<close>.
  \<^verbatim>\<open>add_edge\<close> creates missing end vertices, \<^verbatim>\<open>remove_edge\<close> leaves the vertices in
  the graph.
\<close>

record 'e nx_graph =
  nodes :: "int list"
  edges :: "('e, int) dict"

definition empty_graph :: "'e nx_graph" where
  "empty_graph = \<lparr>nodes = [], edges = []\<rparr>"

definition ekey :: "int \<Rightarrow> int \<Rightarrow> int \<times> int" where
  "ekey u v = (if u \<le> v then (u, v) else (v, u))"

definition add_node :: "int \<Rightarrow> int list \<Rightarrow> int list" where
  "add_node n ns = (if n \<in> set ns then ns else ns @ [n])"

text \<open>\<^verbatim>\<open>G.add_edge(u, v, paths_count=1)\<close> (with \<^verbatim>\<open>key=key\<close> on a multigraph).\<close>

definition add_edge :: "'e \<Rightarrow> int \<Rightarrow> int \<Rightarrow> 'e nx_graph \<Rightarrow> 'e nx_graph" where
  "add_edge e u v g =
     \<lparr>nodes = add_node v (add_node u (nodes g)), edges = AList.update e 1 (edges g)\<rparr>"

text \<open>\<^verbatim>\<open>G.remove_edge(u, v)\<close> (with \<^verbatim>\<open>key=key\<close> on a multigraph).\<close>

definition remove_edge :: "'e \<Rightarrow> 'e nx_graph \<Rightarrow> 'e nx_graph" where
  "remove_edge e g = g\<lparr>edges := AList.delete e (edges g)\<rparr>"

text \<open>
  The body of the loop of \<^verbatim>\<open>_add_path\<close>:
  \<^verbatim>\<open>
  try:
      as_graph[u][v]['paths_count'] += 1
  except KeyError:
      as_graph.add_edge(u, v, paths_count=1)
  \<close>
\<close>

definition incr_edge :: "'e \<Rightarrow> int \<Rightarrow> int \<Rightarrow> 'e nx_graph \<Rightarrow> 'e nx_graph" where
  "incr_edge e u v g =
     (case map_of (edges g) e of
        Some c \<Rightarrow> g\<lparr>edges := AList.update e (c + 1) (edges g)\<rparr>
      | None \<Rightarrow> add_edge e u v g)"

text \<open>
  The body of the loop of \<^verbatim>\<open>_remove_path\<close>:
  \<^verbatim>\<open>
  try:
      as_graph[u][v]['paths_count'] -= 1
      if as_graph[u][v]['paths_count'] == 0:
          as_graph.remove_edge(u, v)
  except KeyError:
      pass
  \<close>
\<close>

definition decr_edge :: "'e \<Rightarrow> 'e nx_graph \<Rightarrow> 'e nx_graph" where
  "decr_edge e g =
     (case map_of (edges g) e of
        Some c \<Rightarrow>
          (let g' = g\<lparr>edges := AList.update e (c - 1) (edges g)\<rparr>
           in if c - 1 = 0 then remove_edge e g' else g')
      | None \<Rightarrow> g)"

text \<open>
  \<^verbatim>\<open>for l in range(0, len(path)-1): u, v = path[l], path[l+1]; ...\<close>: the loop over the
  consecutive pairs of the path, \<open>k u v\<close> being the entry the pair stands for.
\<close>

fun add_path_edges :: "(int \<Rightarrow> int \<Rightarrow> 'e) \<Rightarrow> 'e nx_graph \<Rightarrow> int list \<Rightarrow> 'e nx_graph" where
  "add_path_edges k g (u # v # rest) = add_path_edges k (incr_edge (k u v) u v g) (v # rest)"
| "add_path_edges k g rest = g"

fun remove_path_edges :: "(int \<Rightarrow> int \<Rightarrow> 'e) \<Rightarrow> 'e nx_graph \<Rightarrow> int list \<Rightarrow> 'e nx_graph" where
  "remove_path_edges k g (u # v # rest) = remove_path_edges k (decr_edge (k u v) g) (v # rest)"
| "remove_path_edges k g rest = g"

subsection \<open>ASGraphObserver and ASMultiGraphObserver (graph.py)\<close>

definition ASGraphObserver_add_path ::
  "(int \<times> int) nx_graph \<Rightarrow> int list \<Rightarrow> (int \<times> int) nx_graph" where
  "ASGraphObserver_add_path as_graph path = add_path_edges ekey as_graph path"

definition ASGraphObserver_remove_path ::
  "(int \<times> int) nx_graph \<Rightarrow> int list \<Rightarrow> (int \<times> int) nx_graph" where
  "ASGraphObserver_remove_path as_graph path = remove_path_edges ekey as_graph path"

text \<open>\<^verbatim>\<open>key = f"{kwargs['rc']}_{kwargs['peer_ip']}"\<close>\<close>

definition multigraph_key :: "string \<Rightarrow> string \<Rightarrow> string" where
  "multigraph_key rc peer_ip = rc @ ''_'' @ peer_ip"

definition ASMultiGraphObserver_add_path ::
  "((int \<times> int) \<times> string) nx_graph \<Rightarrow> int list \<Rightarrow> string \<Rightarrow> string
     \<Rightarrow> ((int \<times> int) \<times> string) nx_graph" where
  "ASMultiGraphObserver_add_path as_graph path rc peer_ip =
     add_path_edges (\<lambda>u v. (ekey u v, multigraph_key rc peer_ip)) as_graph path"

definition ASMultiGraphObserver_remove_path ::
  "((int \<times> int) \<times> string) nx_graph \<Rightarrow> int list \<Rightarrow> string \<Rightarrow> string
     \<Rightarrow> ((int \<times> int) \<times> string) nx_graph" where
  "ASMultiGraphObserver_remove_path as_graph path rc peer_ip =
     remove_path_edges (\<lambda>u v. (ekey u v, multigraph_key rc peer_ip)) as_graph path"

subsection \<open>PathObserver (path.py)\<close>

text \<open>\<^verbatim>\<open>self.paths_count\<close> is a \<^verbatim>\<open>defaultdict(int)\<close> keyed by \<^verbatim>\<open>tuple(path)\<close>.\<close>

definition PathObserver_add_path :: "(int list, int) dict \<Rightarrow> int list \<Rightarrow> (int list, int) dict" where
  "PathObserver_add_path paths_count path = bump paths_count path"

definition PathObserver_remove_path ::
  "(int list, int) dict \<Rightarrow> int list \<Rightarrow> (int list, int) dict" where
  "PathObserver_remove_path paths_count path =
     (let c = get0 paths_count path - 1;
          paths_count' = AList.update path c paths_count
      in if c \<le> 0 then AList.delete path paths_count' else paths_count')"

subsection \<open>UpdateCountObserver (update\_count.py)\<close>

record update_counts =
  n_updates :: "(string, int) dict"
  n_withdrawals_ipv4 :: "(string, int) dict"
  n_withdrawals_ipv6 :: "(string, int) dict"
  n_announcements_ipv4 :: "(string, int) dict"
  n_announcements_ipv6 :: "(string, int) dict"
  n_updates_per_peer :: "(string, (string, int) dict) dict"

definition empty_counts :: update_counts where
  "empty_counts = \<lparr>n_updates = [], n_withdrawals_ipv4 = [], n_withdrawals_ipv6 = [],
     n_announcements_ipv4 = [], n_announcements_ipv6 = [], n_updates_per_peer = []\<rparr>"

text \<open>\<^verbatim>\<open>self.n_updates_per_peer[rc][peer_ip] += 1\<close> on a \<^verbatim>\<open>defaultdict\<close> of
  \<^verbatim>\<open>defaultdict(int)\<close>.\<close>

definition bump2 ::
  "(string, (string, int) dict) dict \<Rightarrow> string \<Rightarrow> string \<Rightarrow> (string, (string, int) dict) dict" where
  "bump2 d rc peer_ip =
     AList.update rc (bump (case map_of d rc of None \<Rightarrow> [] | Some inner \<Rightarrow> inner) peer_ip) d"

fun count_withdrawal :: "family \<Rightarrow> string \<Rightarrow> string \<Rightarrow> update_counts \<Rightarrow> update_counts" where
  "count_withdrawal IPv4 rc peer_ip s =
     s\<lparr>n_updates := bump (n_updates s) rc,
       n_withdrawals_ipv4 := bump (n_withdrawals_ipv4 s) rc,
       n_updates_per_peer := bump2 (n_updates_per_peer s) rc peer_ip\<rparr>"
| "count_withdrawal IPv6 rc peer_ip s =
     s\<lparr>n_updates := bump (n_updates s) rc,
       n_withdrawals_ipv6 := bump (n_withdrawals_ipv6 s) rc,
       n_updates_per_peer := bump2 (n_updates_per_peer s) rc peer_ip\<rparr>"

fun count_announcement :: "family \<Rightarrow> string \<Rightarrow> string \<Rightarrow> update_counts \<Rightarrow> update_counts" where
  "count_announcement IPv4 rc peer_ip s =
     s\<lparr>n_updates := bump (n_updates s) rc,
       n_announcements_ipv4 := bump (n_announcements_ipv4 s) rc,
       n_updates_per_peer := bump2 (n_updates_per_peer s) rc peer_ip\<rparr>"
| "count_announcement IPv6 rc peer_ip s =
     s\<lparr>n_updates := bump (n_updates s) rc,
       n_announcements_ipv6 := bump (n_announcements_ipv6 s) rc,
       n_updates_per_peer := bump2 (n_updates_per_peer s) rc peer_ip\<rparr>"

subsection \<open>The observer interface\<close>

text \<open>
  The four concrete observers, each with its \<^verbatim>\<open>name\<close> and its aggregate state. Every
  method of the interface comes as an \<^verbatim>\<open>_ipv4\<close>/\<^verbatim>\<open>_ipv6\<close> pair whose two bodies
  differ only in the graph or counter they address; the model takes the family as an
  argument. \<^verbatim>\<open>old_path\<close> is \<^verbatim>\<open>None\<close> or a list, and \<^verbatim>\<open>if old_path:\<close> holds for a
  non-empty list only: that is the case \<open>Some (x # xs)\<close>.
\<close>

datatype observer =
    ASGraphObserver string "(int \<times> int) nx_graph" "(int \<times> int) nx_graph"
  | ASMultiGraphObserver string "((int \<times> int) \<times> string) nx_graph" "((int \<times> int) \<times> string) nx_graph"
  | PathObserver string "(int list, int) dict"
  | UpdateCountObserver string update_counts

fun name :: "observer \<Rightarrow> string" where
  "name (ASGraphObserver n g4 g6) = n"
| "name (ASMultiGraphObserver n g4 g6) = n"
| "name (PathObserver n pc) = n"
| "name (UpdateCountObserver n s) = n"

fun add_path :: "family \<Rightarrow> string \<Rightarrow> string \<Rightarrow> string \<Rightarrow> int list \<Rightarrow> observer \<Rightarrow> observer" where
  "add_path IPv4 rc peer_ip pfx path (ASGraphObserver n g4 g6) =
     ASGraphObserver n (ASGraphObserver_add_path g4 path) g6"
| "add_path IPv6 rc peer_ip pfx path (ASGraphObserver n g4 g6) =
     ASGraphObserver n g4 (ASGraphObserver_add_path g6 path)"
| "add_path IPv4 rc peer_ip pfx path (ASMultiGraphObserver n g4 g6) =
     ASMultiGraphObserver n (ASMultiGraphObserver_add_path g4 path rc peer_ip) g6"
| "add_path IPv6 rc peer_ip pfx path (ASMultiGraphObserver n g4 g6) =
     ASMultiGraphObserver n g4 (ASMultiGraphObserver_add_path g6 path rc peer_ip)"
| "add_path fam rc peer_ip pfx path (PathObserver n pc) =
     PathObserver n (PathObserver_add_path pc path)"
| "add_path fam rc peer_ip pfx path (UpdateCountObserver n s) = UpdateCountObserver n s"

fun update_withdrawal ::
  "family \<Rightarrow> string \<Rightarrow> string \<Rightarrow> string \<Rightarrow> int list \<Rightarrow> observer \<Rightarrow> observer" where
  "update_withdrawal IPv4 rc peer_ip pfx path (ASGraphObserver n g4 g6) =
     ASGraphObserver n (ASGraphObserver_remove_path g4 path) g6"
| "update_withdrawal IPv6 rc peer_ip pfx path (ASGraphObserver n g4 g6) =
     ASGraphObserver n g4 (ASGraphObserver_remove_path g6 path)"
| "update_withdrawal IPv4 rc peer_ip pfx path (ASMultiGraphObserver n g4 g6) =
     ASMultiGraphObserver n (ASMultiGraphObserver_remove_path g4 path rc peer_ip) g6"
| "update_withdrawal IPv6 rc peer_ip pfx path (ASMultiGraphObserver n g4 g6) =
     ASMultiGraphObserver n g4 (ASMultiGraphObserver_remove_path g6 path rc peer_ip)"
| "update_withdrawal fam rc peer_ip pfx path (PathObserver n pc) =
     PathObserver n (PathObserver_remove_path pc path)"
| "update_withdrawal fam rc peer_ip pfx path (UpdateCountObserver n s) =
     UpdateCountObserver n (count_withdrawal fam rc peer_ip s)"

fun update_announcement ::
  "family \<Rightarrow> string \<Rightarrow> string \<Rightarrow> string \<Rightarrow> int list \<Rightarrow> int list option \<Rightarrow> observer \<Rightarrow> observer" where
  "update_announcement IPv4 rc peer_ip pfx new_path old_path (ASGraphObserver n g4 g6) =
     (case old_path of
        Some (x # xs) \<Rightarrow>
          ASGraphObserver n
            (ASGraphObserver_add_path (ASGraphObserver_remove_path g4 (x # xs)) new_path) g6
      | _ \<Rightarrow> ASGraphObserver n (ASGraphObserver_add_path g4 new_path) g6)"
| "update_announcement IPv6 rc peer_ip pfx new_path old_path (ASGraphObserver n g4 g6) =
     (case old_path of
        Some (x # xs) \<Rightarrow>
          ASGraphObserver n g4
            (ASGraphObserver_add_path (ASGraphObserver_remove_path g6 (x # xs)) new_path)
      | _ \<Rightarrow> ASGraphObserver n g4 (ASGraphObserver_add_path g6 new_path))"
| "update_announcement IPv4 rc peer_ip pfx new_path old_path (ASMultiGraphObserver n g4 g6) =
     (case old_path of
        Some (x # xs) \<Rightarrow>
          ASMultiGraphObserver n
            (ASMultiGraphObserver_add_path
               (ASMultiGraphObserver_remove_path g4 (x # xs) rc peer_ip) new_path rc peer_ip) g6
      | _ \<Rightarrow> ASMultiGraphObserver n (ASMultiGraphObserver_add_path g4 new_path rc peer_ip) g6)"
| "update_announcement IPv6 rc peer_ip pfx new_path old_path (ASMultiGraphObserver n g4 g6) =
     (case old_path of
        Some (x # xs) \<Rightarrow>
          ASMultiGraphObserver n g4
            (ASMultiGraphObserver_add_path
               (ASMultiGraphObserver_remove_path g6 (x # xs) rc peer_ip) new_path rc peer_ip)
      | _ \<Rightarrow> ASMultiGraphObserver n g4 (ASMultiGraphObserver_add_path g6 new_path rc peer_ip))"
| "update_announcement fam rc peer_ip pfx new_path old_path (PathObserver n pc) =
     PathObserver n
       (PathObserver_add_path
          (case old_path of
             Some (x # xs) \<Rightarrow> PathObserver_remove_path pc (x # xs)
           | _ \<Rightarrow> pc)
          new_path)"
| "update_announcement fam rc peer_ip pfx new_path old_path (UpdateCountObserver n s) =
     UpdateCountObserver n (count_announcement fam rc peer_ip s)"

text \<open>
  The RIB store calls the same method on every attached observer. A call is written as
  an \<open>event\<close>; \<open>deliver\<close> is the call on one observer.
\<close>

datatype event =
    AddPath family string string string "int list"
  | Withdrawal family string string string "int list"
  | Announcement family string string string "int list" "int list option"

fun deliver :: "event \<Rightarrow> observer \<Rightarrow> observer" where
  "deliver (AddPath fam rc peer_ip pfx path) obs = add_path fam rc peer_ip pfx path obs"
| "deliver (Withdrawal fam rc peer_ip pfx path) obs = update_withdrawal fam rc peer_ip pfx path obs"
| "deliver (Announcement fam rc peer_ip pfx new_path old_path) obs =
     update_announcement fam rc peer_ip pfx new_path old_path obs"

definition deliver_all :: "event list \<Rightarrow> observer \<Rightarrow> observer" where
  "deliver_all evs obs = foldl (\<lambda>obs ev. deliver ev obs) obs evs"

text \<open>The state of an observer as its constructor leaves it.\<close>

fun is_initial :: "observer \<Rightarrow> bool" where
  "is_initial (ASGraphObserver n g4 g6) = (g4 = empty_graph \<and> g6 = empty_graph)"
| "is_initial (ASMultiGraphObserver n g4 g6) = (g4 = empty_graph \<and> g6 = empty_graph)"
| "is_initial (PathObserver n pc) = (pc = [])"
| "is_initial (UpdateCountObserver n s) = (s = empty_counts)"

subsection \<open>compare on the observers\<close>

text \<open>
  \<^verbatim>\<open>nx.isolates(G)\<close> are the vertices of degree zero, those on no edge;
  \<^verbatim>\<open>G.remove_nodes_from(list(nx.isolates(G)))\<close> takes them out of the graph.
\<close>

definition isolated :: "(int \<times> int) nx_graph \<Rightarrow> int \<Rightarrow> bool" where
  "isolated g n = list_all (\<lambda>ec. fst (fst ec) \<noteq> n \<and> snd (fst ec) \<noteq> n) (edges g)"

definition remove_isolates :: "(int \<times> int) nx_graph \<Rightarrow> (int \<times> int) nx_graph" where
  "remove_isolates g = g\<lparr>nodes := filter (\<lambda>n. \<not> isolated g n) (nodes g)\<rparr>"

text \<open>
  \<^verbatim>\<open>own_observer.compare(other_observer)\<close>: the observer as the call leaves it, and the
  exception it raises, if any. \<^verbatim>\<open>ASGraphObserver.compare\<close> removes the isolated vertices
  of its own IPv4 graph and then reads \<^verbatim>\<open>other.graph_ipv4\<close>, which only the two graph
  observers have: with another observer the vertices are removed and \<^verbatim>\<open>AttributeError\<close>
  is raised. What \<^verbatim>\<open>compare_weighted_graphs\<close> returns is logged and nothing else.
  \<^verbatim>\<open>ASMultiGraphObserver\<close> defines no \<^verbatim>\<open>compare\<close>: the call reaches \<^verbatim>\<open>Observer.compare\<close>,
  which raises \<^verbatim>\<open>NotImplementedError\<close>. The two counters pass.
\<close>

fun observer_compare :: "observer \<Rightarrow> observer \<Rightarrow> observer \<times> error option" where
  "observer_compare (ASGraphObserver n g4 g6) (ASGraphObserver n' h4 h6) =
     (ASGraphObserver n (remove_isolates g4) g6, None)"
| "observer_compare (ASGraphObserver n g4 g6) (ASMultiGraphObserver n' h4 h6) =
     (ASGraphObserver n (remove_isolates g4) g6, None)"
| "observer_compare (ASGraphObserver n g4 g6) other =
     (ASGraphObserver n (remove_isolates g4) g6, Some AttributeError)"
| "observer_compare (ASMultiGraphObserver n g4 g6) other =
     (ASMultiGraphObserver n g4 g6, Some NotImplementedError)"
| "observer_compare (PathObserver n pc) other = (PathObserver n pc, None)"
| "observer_compare (UpdateCountObserver n s) other = (UpdateCountObserver n s, None)"

section \<open>The RIB store (rib\_table.py)\<close>

subsection \<open>Sanitizing an AS path\<close>

text \<open>\<^verbatim>\<open>[int(k) for k, g in groupby(as_path.split(" "))]\<close>; \<open>None\<close> when an \<^verbatim>\<open>int\<close>
  raises \<^verbatim>\<open>ValueError\<close>.\<close>

definition parse_as_path :: "string \<Rightarrow> int list option" where
  "parse_as_path as_path = those (map (\<lambda>kg. py_int (fst kg)) (groupby (py_split CHR '' '' as_path)))"

definition is_valid_path :: "int list \<Rightarrow> int \<Rightarrow> bool" where
  "is_valid_path path peer_asn = (length path > 1 \<and> path ! 0 = peer_asn)"

text \<open>\<^verbatim>\<open>if "." in pfx: ..._ipv4 elif ":" in pfx: ..._ipv6\<close>: the family a notification is
  sent for, none when the prefix holds neither character.\<close>

definition pfx_family :: "string \<Rightarrow> family option" where
  "pfx_family pfx =
     (if CHR ''.'' \<in> set pfx then Some IPv4 else if CHR '':'' \<in> set pfx then Some IPv6 else None)"

subsection \<open>The table\<close>

text \<open>
  \<open>data\<close> is the nested dict route collector, peer ip, prefix, AS path. Times are
  \<^verbatim>\<open>datetime\<close> values, counted in microseconds. The session, which only downloads, is
  left out: a url stands for the lines that \<^verbatim>\<open>bgpdump -m -v\<close> prints for its file.
\<close>

type_synonym rib = "(string, (string, int list) dict) dict"

record RIBTable =
  observers :: "observer list"
  data :: "(string, rib) dict"
  stop_updating :: "(string, bool) dict"
  peer_ip_filter :: "string list"
  ts_start :: int
  ts_end :: int

definition init_RIBTable :: "string list \<Rightarrow> int \<Rightarrow> int \<Rightarrow> RIBTable" where
  "init_RIBTable flt t_start t_end =
     \<lparr>observers = [], data = [], stop_updating = [], peer_ip_filter = flt,
      ts_start = t_start, ts_end = t_end\<rparr>"

definition attach_observer :: "observer \<Rightarrow> RIBTable \<Rightarrow> RIBTable" where
  "attach_observer observer t = t\<lparr>observers := observers t @ [observer]\<rparr>"

text \<open>The six \<^verbatim>\<open>_notify_...\<close> methods: the call goes to every observer, in the order of
  the list.\<close>

definition notify :: "event \<Rightarrow> observer list \<Rightarrow> observer list" where
  "notify ev obs = map (deliver ev) obs"

text \<open>The notification for a prefix: \<open>mk\<close> builds the call once the family is known.\<close>

definition notify_pfx :: "string \<Rightarrow> (family \<Rightarrow> event) \<Rightarrow> observer list \<Rightarrow> observer list" where
  "notify_pfx pfx mk obs = (case pfx_family pfx of Some fam \<Rightarrow> notify (mk fam) obs | None \<Rightarrow> obs)"

subsection \<open>build\<close>

text \<open>\<^verbatim>\<open>peer_to_pfx_to_path[peer_ip][pfx] = path\<close> on a \<^verbatim>\<open>defaultdict(dict)\<close>.\<close>

definition set_entry :: "rib \<Rightarrow> string \<Rightarrow> string \<Rightarrow> int list \<Rightarrow> rib" where
  "set_entry rib peer_ip pfx path =
     AList.update peer_ip
       (AList.update pfx path (case map_of rib peer_ip of None \<Rightarrow> [] | Some m \<Rightarrow> m)) rib"

text \<open>
  One turn of the loop of \<^verbatim>\<open>_build_rib_from_url\<close>. The unpacking of \<^verbatim>\<open>res[3:7]\<close> into
  four names and \<^verbatim>\<open>int(peer_asn)\<close> stand outside the \<^verbatim>\<open>try\<close>: their \<^verbatim>\<open>ValueError\<close>
  leaves the method. (\<^verbatim>\<open>n_invalid\<close> and \<^verbatim>\<open>n_entries\<close> are only logged.)
\<close>

definition build_line ::
  "string list \<Rightarrow> string \<Rightarrow> string \<Rightarrow> rib \<times> observer list \<Rightarrow> error + (rib \<times> observer list)" where
  "build_line flt rc line s =
     (case take 4 (drop 3 (py_split CHR ''|'' (py_strip line))) of
        [peer_ip, peer_asn, pfx, as_path] \<Rightarrow>
          (case py_int peer_asn of
             None \<Rightarrow> Inl ValueError
           | Some peer_asn \<Rightarrow>
               if length flt = 0 \<or> peer_ip \<in> set flt then
                 (case parse_as_path as_path of
                    None \<Rightarrow> Inr s
                  | Some path \<Rightarrow>
                      if is_valid_path path peer_asn
                      then Inr (set_entry (fst s) peer_ip pfx path,
                                notify_pfx pfx (\<lambda>fam. AddPath fam rc peer_ip pfx path) (snd s))
                      else Inr s)
               else Inr s)
      | _ \<Rightarrow> Inl ValueError)"

fun build_lines ::
  "string list \<Rightarrow> string \<Rightarrow> string list \<Rightarrow> rib \<times> observer list \<Rightarrow> error + (rib \<times> observer list)" where
  "build_lines flt rc [] s = Inr s"
| "build_lines flt rc (line # lines) s =
     (case build_line flt rc line s of Inl e \<Rightarrow> Inl e | Inr s' \<Rightarrow> build_lines flt rc lines s')"

definition build_rib_from_url ::
  "string list \<Rightarrow> string list \<Rightarrow> string \<Rightarrow> observer list \<Rightarrow> error + (rib \<times> observer list)" where
  "build_rib_from_url flt url rc obs = build_lines flt rc url ([], obs)"

text \<open>
  \<^verbatim>\<open>self.data = {rc: self._build_rib_from_url(url, rc) for rc, url in rc_to_url.items()}\<close>:
  the new dict is assigned when every collector is built, and
  \<^verbatim>\<open>self.stop_updating = {rc: False for rc in rc_to_url}\<close>.
\<close>

fun build_ribs ::
  "string list \<Rightarrow> (string, string list) dict \<Rightarrow> (string, rib) dict \<times> observer list
     \<Rightarrow> error + ((string, rib) dict \<times> observer list)" where
  "build_ribs flt [] s = Inr s"
| "build_ribs flt ((rc, url) # rest) s =
     (case build_rib_from_url flt url rc (snd s) of
        Inl e \<Rightarrow> Inl e
      | Inr (rib, obs) \<Rightarrow> build_ribs flt rest (AList.update rc rib (fst s), obs))"

definition build :: "(string, string list) dict \<Rightarrow> RIBTable \<Rightarrow> error + RIBTable" where
  "build rc_to_url t =
     (case build_ribs (peer_ip_filter t) rc_to_url ([], observers t) of
        Inl e \<Rightarrow> Inl e
      | Inr (d, obs) \<Rightarrow>
          Inr (t\<lparr>observers := obs, data := d,
                 stop_updating := foldl (\<lambda>d rc. AList.update rc False d) [] (map fst rc_to_url)\<rparr>))"

subsection \<open>update\<close>

text \<open>
  \<^verbatim>\<open>if pfx in rib[peer_ip]: notify the withdrawal of rib[peer_ip][pfx]; rib[peer_ip].pop(pfx)\<close>,
  under \<^verbatim>\<open>if peer_ip in rib\<close>. The source has this block three times: for a withdrawal,
  for an announcement whose path does not parse, and for one whose path is not valid.
\<close>

definition withdraw_entry ::
  "string \<Rightarrow> string \<Rightarrow> string \<Rightarrow> rib \<times> RIBTable \<Rightarrow> rib \<times> RIBTable" where
  "withdraw_entry rc peer_ip pfx s =
     (case map_of (fst s) peer_ip of
        None \<Rightarrow> s
      | Some m \<Rightarrow>
          (case map_of m pfx of
             None \<Rightarrow> s
           | Some old \<Rightarrow>
               (AList.update peer_ip (AList.delete pfx m) (fst s),
                (snd s)\<lparr>observers :=
                   notify_pfx pfx (\<lambda>fam. Withdrawal fam rc peer_ip pfx old) (observers (snd s))\<rparr>)))"

text \<open>The valid announcement: notify with the old path, if any, and store the new one.\<close>

definition announce_entry ::
  "string \<Rightarrow> string \<Rightarrow> string \<Rightarrow> int list \<Rightarrow> (string, int list) dict \<Rightarrow> rib \<times> RIBTable
     \<Rightarrow> rib \<times> RIBTable" where
  "announce_entry rc peer_ip pfx new_path m s =
     (AList.update peer_ip (AList.update pfx new_path m) (fst s),
      (snd s)\<lparr>observers :=
         notify_pfx pfx (\<lambda>fam. Announcement fam rc peer_ip pfx new_path (map_of m pfx))
           (observers (snd s))\<rparr>)"

text \<open>
  One turn of the loop of \<^verbatim>\<open>_update_rib_from_url\<close>: it goes on with the next line,
  returns from the method, or raises. \<open>rib\<close> is \<^verbatim>\<open>self.data[rc]\<close>, which \<^verbatim>\<open>update\<close>
  passes in. The turn is written in two parts. \<open>apply_update\<close> is the second one, from
  \<^verbatim>\<open>update_type = update[2]\<close> to the end of the body, for a record inside the window.
\<close>

datatype 'a step = Continue 'a | Return 'a | Raise error

definition apply_update ::
  "string \<Rightarrow> string list \<Rightarrow> rib \<times> RIBTable \<Rightarrow> (rib \<times> RIBTable) step" where
  "apply_update rc update s =
     (if length update < 6 then Raise IndexError
      else
        let update_type = update ! 2; peer_ip = update ! 3; pfx = update ! 5 in
        if length (peer_ip_filter (snd s)) > 0 \<and> peer_ip \<notin> set (peer_ip_filter (snd s))
        then Continue s
        else if length update = 6 \<and> update_type = ''W''
        then Continue (withdraw_entry rc peer_ip pfx s)
        else if length update = 15 \<and> update_type = ''A'' then
          (case py_int (update ! 4) of
             None \<Rightarrow> Raise ValueError
           | Some peer_asn \<Rightarrow>
               (case map_of (fst s) peer_ip of
                  None \<Rightarrow> Continue s
                | Some m \<Rightarrow>
                    (case parse_as_path (update ! 6) of
                       None \<Rightarrow> Continue (withdraw_entry rc peer_ip pfx s)
                     | Some new_path \<Rightarrow>
                         if is_valid_path new_path peer_asn
                         then Continue (announce_entry rc peer_ip pfx new_path m s)
                         else Continue (withdraw_entry rc peer_ip pfx s))))
        else Continue s)"

text \<open>
  The first part: the line is split, its time stamp is read and tested against the
  window. \<open>utc\<close> stands for \<^verbatim>\<open>datetime.utcfromtimestamp(float(...))\<close>, in microseconds,
  \<open>None\<close> where it raises. It raises \<^verbatim>\<open>ValueError\<close> for a text that is no number and for
  a year outside 1 to 9999, and \<^verbatim>\<open>OverflowError\<close> for a number beyond the time stamps
  of the platform; the two are not told apart here and stand as \<open>ValueError\<close>.
\<close>

definition update_line ::
  "(string \<Rightarrow> int option) \<Rightarrow> string \<Rightarrow> string \<Rightarrow> rib \<times> RIBTable \<Rightarrow> (rib \<times> RIBTable) step" where
  "update_line utc rc line s =
     (let update = py_split CHR ''|'' (py_rstrip line) in
      if length update < 2 then Raise IndexError
      else case utc (update ! 1) of
        None \<Rightarrow> Raise ValueError
      | Some update_ts \<Rightarrow>
          if update_ts < ts_start (snd s) then Continue s
          else if update_ts > ts_end (snd s) + 1000000
          then Return (fst s, (snd s)\<lparr>stop_updating := AList.update rc True (stop_updating (snd s))\<rparr>)
          else apply_update rc update s)"

fun update_lines ::
  "(string \<Rightarrow> int option) \<Rightarrow> string \<Rightarrow> string list \<Rightarrow> rib \<times> RIBTable \<Rightarrow> error + (rib \<times> RIBTable)" where
  "update_lines utc rc [] s = Inr s"
| "update_lines utc rc (line # lines) s =
     (case update_line utc rc line s of
        Continue s' \<Rightarrow> update_lines utc rc lines s'
      | Return s' \<Rightarrow> Inr s'
      | Raise e \<Rightarrow> Inl e)"

text \<open>
  \<^verbatim>\<open>self._update_rib_from_url(self.data[rc], url, rc)\<close>: the method changes the dict
  \<^verbatim>\<open>self.data[rc]\<close> in place, so its result is written back at \<open>rc\<close>.
\<close>

definition update_rib_from_url ::
  "(string \<Rightarrow> int option) \<Rightarrow> string list \<Rightarrow> string \<Rightarrow> RIBTable \<Rightarrow> error + RIBTable" where
  "update_rib_from_url utc url rc t =
     (case map_of (data t) rc of
        None \<Rightarrow> Inl KeyError
      | Some rib \<Rightarrow>
          (case update_lines utc rc url (rib, t) of
             Inl e \<Rightarrow> Inl e
           | Inr (rib', t') \<Rightarrow> Inr (t'\<lparr>data := AList.update rc rib' (data t')\<rparr>)))"

fun update :: "(string \<Rightarrow> int option) \<Rightarrow> (string, string list) dict \<Rightarrow> RIBTable \<Rightarrow> error + RIBTable" where
  "update utc [] t = Inr t"
| "update utc ((rc, url) # rest) t =
     (case update_rib_from_url utc url rc t of Inl e \<Rightarrow> Inl e | Inr t' \<Rightarrow> update utc rest t')"

text \<open>The calls of \<^verbatim>\<open>update\<close> that the driver makes one after the other, each with the
  update files of one time stamp.\<close>

fun updates ::
  "(string \<Rightarrow> int option) \<Rightarrow> (string, string list) dict list \<Rightarrow> RIBTable \<Rightarrow> error + RIBTable" where
  "updates utc [] t = Inr t"
| "updates utc (rc_to_url # rest) t =
     (case update utc rc_to_url t of Inl e \<Rightarrow> Inl e | Inr t' \<Rightarrow> updates utc rest t')"

subsection \<open>compare\<close>

text \<open>
  \<^verbatim>\<open>dict_diff(dict1, dict2)\<close>: the entries only in the second dict, those only in the
  first, and the keys of both with two different values. It reads each dict at its own
  keys only, so it raises nothing; \<^verbatim>\<open>compare\<close> logs the three lengths.
\<close>

definition dict_diff ::
  "('k, 'v) dict \<Rightarrow> ('k, 'v) dict \<Rightarrow> ('k, 'v) dict \<times> ('k, 'v) dict \<times> ('k, 'v \<times> 'v) dict" where
  "dict_diff dict1 dict2 =
     (filter (\<lambda>kv. \<not> has_key dict1 (fst kv)) dict2,
      filter (\<lambda>kv. \<not> has_key dict2 (fst kv)) dict1,
      concat (map (\<lambda>kv. case map_of dict2 (fst kv) of
                            None \<Rightarrow> []
                          | Some v2 \<Rightarrow> if snd kv \<noteq> v2 then [(fst kv, (snd kv, v2))] else []) dict1))"

text \<open>
  \<^verbatim>\<open>compare\<close> changes objects before it raises, so each part of it gives the state it
  leaves together with the exception, if any.

  The first loop of \<^verbatim>\<open>compare\<close>, for the peers of one collector of \<^verbatim>\<open>self.data\<close>. The
  test \<^verbatim>\<open>len(other.data[rc][peer_ip]) == 0\<close> stands before the \<^verbatim>\<open>try\<close>:
  \<^verbatim>\<open>other.data[rc]\<close> raises \<^verbatim>\<open>KeyError\<close> for a collector that \<^verbatim>\<open>other\<close> has not, and, being
  the \<^verbatim>\<open>defaultdict(dict)\<close> that the build made, it gets an empty dict for a peer it has
  not. The rest of the body logs and changes nothing; the division is by a length that
  is not zero.
\<close>

fun compare_peers ::
  "string \<Rightarrow> string list \<Rightarrow> (string, rib) dict \<Rightarrow> (string, rib) dict \<times> error option" where
  "compare_peers rc [] other_data = (other_data, None)"
| "compare_peers rc (peer_ip # rest) other_data =
     (case map_of other_data rc of
        None \<Rightarrow> (other_data, Some KeyError)
      | Some other_rib \<Rightarrow>
          (case map_of other_rib peer_ip of
             None \<Rightarrow>
               compare_peers rc rest (AList.update rc (AList.update peer_ip [] other_rib) other_data)
           | Some m \<Rightarrow> compare_peers rc rest other_data))"

fun compare_ribs ::
  "(string, rib) dict \<Rightarrow> (string, rib) dict \<Rightarrow> (string, rib) dict \<times> error option" where
  "compare_ribs [] other_data = (other_data, None)"
| "compare_ribs ((rc, rib) # rest) other_data =
     (case compare_peers rc (map fst rib) other_data of
        (other_data', Some e) \<Rightarrow> (other_data', Some e)
      | (other_data', None) \<Rightarrow> compare_ribs rest other_data')"

text \<open>
  The second loop:
  \<^verbatim>\<open>
  for other_observer in other._observers:
      for own_observer in self._observers:
          if other_observer.name == own_observer.name:
              own_observer.compare(other_observer)
  \<close>
\<close>

fun compare_own :: "observer \<Rightarrow> observer list \<Rightarrow> observer list \<times> error option" where
  "compare_own other_observer [] = ([], None)"
| "compare_own other_observer (own_observer # rest) =
     (case (if name other_observer = name own_observer
            then observer_compare own_observer other_observer else (own_observer, None)) of
        (own', Some e) \<Rightarrow> (own' # rest, Some e)
      | (own', None) \<Rightarrow>
          (case compare_own other_observer rest of (rest', r) \<Rightarrow> (own' # rest', r)))"

fun compare_observers :: "observer list \<Rightarrow> observer list \<Rightarrow> observer list \<times> error option" where
  "compare_observers [] own = (own, None)"
| "compare_observers (other_observer # rest) own =
     (case compare_own other_observer own of
        (own', Some e) \<Rightarrow> (own', Some e)
      | (own', None) \<Rightarrow> compare_observers rest own')"

text \<open>\<^verbatim>\<open>self.compare(other)\<close>, for two tables that are two objects: the two tables as
  the call leaves them, and the exception it raises, if any. An exception of the first
  loop ends the call before the observers are compared.\<close>

definition compare :: "RIBTable \<Rightarrow> RIBTable \<Rightarrow> (RIBTable \<times> RIBTable) \<times> error option" where
  "compare self other =
     (case compare_ribs (data self) (data other) of
        (other_data, Some e) \<Rightarrow> ((self, other\<lparr>data := other_data\<rparr>), Some e)
      | (other_data, None) \<Rightarrow>
          (case compare_observers (observers other) (observers self) of
             (own, r) \<Rightarrow> ((self\<lparr>observers := own\<rparr>, other\<lparr>data := other_data\<rparr>), r)))"

section \<open>Notions used to state the properties\<close>

subsection \<open>Counts held by the observers\<close>

text \<open>
  A dict of counts is well formed when its keys are distinct, as in any dict, and every
  count it holds is at least 1: no negative count and no entry kept at zero.
\<close>

definition pos_dict :: "('k, int) dict \<Rightarrow> bool" where
  "pos_dict d = (distinct (map fst d) \<and> list_all (\<lambda>kc. 0 < snd kc) d)"

definition pos_dict2 :: "('k, ('j, int) dict) dict \<Rightarrow> bool" where
  "pos_dict2 d = (distinct (map fst d) \<and> list_all (\<lambda>kd. pos_dict (snd kd)) d)"

fun counts_positive :: "observer \<Rightarrow> bool" where
  "counts_positive (ASGraphObserver n g4 g6) = (pos_dict (edges g4) \<and> pos_dict (edges g6))"
| "counts_positive (ASMultiGraphObserver n g4 g6) = (pos_dict (edges g4) \<and> pos_dict (edges g6))"
| "counts_positive (PathObserver n pc) = pos_dict pc"
| "counts_positive (UpdateCountObserver n s) =
     (pos_dict (n_updates s) \<and> pos_dict (n_withdrawals_ipv4 s) \<and> pos_dict (n_withdrawals_ipv6 s)
      \<and> pos_dict (n_announcements_ipv4 s) \<and> pos_dict (n_announcements_ipv6 s)
      \<and> pos_dict2 (n_updates_per_peer s))"

text \<open>
  The edges with their counts, the vertex lists put aside; and the vertex lists
  (IPv4, IPv6). Observers without a graph have no vertices.
\<close>

fun edge_state :: "observer \<Rightarrow> observer" where
  "edge_state (ASGraphObserver n g4 g6) = ASGraphObserver n (g4\<lparr>nodes := []\<rparr>) (g6\<lparr>nodes := []\<rparr>)"
| "edge_state (ASMultiGraphObserver n g4 g6) =
     ASMultiGraphObserver n (g4\<lparr>nodes := []\<rparr>) (g6\<lparr>nodes := []\<rparr>)"
| "edge_state (PathObserver n pc) = PathObserver n pc"
| "edge_state (UpdateCountObserver n s) = UpdateCountObserver n s"

fun vertices :: "observer \<Rightarrow> int list \<times> int list" where
  "vertices (ASGraphObserver n g4 g6) = (nodes g4, nodes g6)"
| "vertices (ASMultiGraphObserver n g4 g6) = (nodes g4, nodes g6)"
| "vertices (PathObserver n pc) = ([], [])"
| "vertices (UpdateCountObserver n s) = ([], [])"

fun is_update_count :: "observer \<Rightarrow> bool" where
  "is_update_count (UpdateCountObserver n s) = True"
| "is_update_count obs = False"

text \<open>The entries a path stands for, the effect of the two loops on the dict of edges,
  and the number of times a path runs over an entry.\<close>

fun path_keys :: "(int \<Rightarrow> int \<Rightarrow> 'e) \<Rightarrow> int list \<Rightarrow> 'e list" where
  "path_keys k (u # v # rest) = k u v # path_keys k (v # rest)"
| "path_keys k rest = []"

definition inc_key :: "'e \<Rightarrow> ('e, int) dict \<Rightarrow> ('e, int) dict" where
  "inc_key e d = (case map_of d e of Some c \<Rightarrow> AList.update e (c + 1) d | None \<Rightarrow> AList.update e 1 d)"

definition dec_key :: "'e \<Rightarrow> ('e, int) dict \<Rightarrow> ('e, int) dict" where
  "dec_key e d =
     (case map_of d e of
        Some c \<Rightarrow> if c - 1 = 0 then AList.delete e d else AList.update e (c - 1) d
      | None \<Rightarrow> d)"

definition occ :: "'e list \<Rightarrow> 'e \<Rightarrow> int" where
  "occ es e = int (count_list es e)"

fun sub_counts :: "('e \<Rightarrow> int) \<Rightarrow> ('e, int) dict \<Rightarrow> ('e, int) dict" where
  "sub_counts f [] = []"
| "sub_counts f ((k, c) # d) = (if f k < c then (k, c - f k) # sub_counts f d else sub_counts f d)"

subsection \<open>Tokens of an AS path\<close>

text \<open>A token that parses as a non-negative integer, in the words of the specification;
  a string of digits, one that is within the limit of \<^verbatim>\<open>int\<close>, and its value; and a
  canonical decimal numeral: digits only, no leading zero but for \<open>0\<close> itself.\<close>

definition nonneg_int_token :: "string \<Rightarrow> bool" where
  "nonneg_int_token tok = (case py_int tok of Some n \<Rightarrow> 0 \<le> n | None \<Rightarrow> False)"

definition digit_string :: "string \<Rightarrow> bool" where
  "digit_string tok = (tok \<noteq> [] \<and> list_all is_digit tok)"

definition short_digit_string :: "string \<Rightarrow> bool" where
  "short_digit_string tok = (digit_string tok \<and> length tok \<le> int_max_str_digits)"

definition dec_value :: "string \<Rightarrow> int" where
  "dec_value s = foldl (\<lambda>a c. 10 * a + digit_val c) 0 s"

definition canonical_numeral :: "string \<Rightarrow> bool" where
  "canonical_numeral tok = (digit_string tok \<and> (hd tok \<noteq> CHR ''0'' \<or> tok = ''0''))"

text \<open>The characters a string that \<^verbatim>\<open>int\<close> accepts can hold.\<close>

definition int_char :: "char \<Rightarrow> bool" where
  "int_char c = (is_int_space c \<or> is_digit c \<or> c = CHR ''+'' \<or> c = CHR ''-'' \<or> c = CHR ''_'')"

subsection \<open>Records of an update file\<close>

text \<open>The fields of an update line, its time stamp (none when the line has no second
  field or the conversion raises), and the two ways a time stamp lies outside the window.\<close>

definition upd_fields :: "string \<Rightarrow> string list" where
  "upd_fields line = py_split CHR ''|'' (py_rstrip line)"

definition line_ts :: "(string \<Rightarrow> int option) \<Rightarrow> string \<Rightarrow> int option" where
  "line_ts utc line = (if length (upd_fields line) < 2 then None else utc (upd_fields line ! 1))"

definition too_early :: "(string \<Rightarrow> int option) \<Rightarrow> RIBTable \<Rightarrow> string \<Rightarrow> bool" where
  "too_early utc t line = (case line_ts utc line of Some ts \<Rightarrow> ts < ts_start t | None \<Rightarrow> False)"

definition too_late :: "(string \<Rightarrow> int option) \<Rightarrow> RIBTable \<Rightarrow> string \<Rightarrow> bool" where
  "too_late utc t line = (case line_ts utc line of Some ts \<Rightarrow> ts > ts_end t + 1000000 | None \<Rightarrow> False)"

text \<open>
  The test for a record that is too early comes first in the loop, so the record that
  stops the reading of a file is one that is too late and not too early. The two are
  the same unless \<open>ts_start\<close> is more than one second after \<open>ts_end\<close>.
\<close>

definition stops :: "(string \<Rightarrow> int option) \<Rightarrow> RIBTable \<Rightarrow> string \<Rightarrow> bool" where
  "stops utc t line = (too_late utc t line \<and> \<not> too_early utc t line)"

text \<open>The lines of a file that are looked at and lie in the window: those before the
  first line that stops the reading, without the ones that are too early or too late.\<close>

definition in_window :: "(string \<Rightarrow> int option) \<Rightarrow> RIBTable \<Rightarrow> string list \<Rightarrow> string list" where
  "in_window utc t lines =
     filter (\<lambda>l. \<not> too_early utc t l \<and> \<not> too_late utc t l)
       (takeWhile (\<lambda>l. \<not> stops utc t l) lines)"

text \<open>A table with other flags, and what a call leaves apart from the flags: the error,
  or the RIBs and the observers.\<close>

definition with_flags :: "(string, bool) dict \<Rightarrow> RIBTable \<Rightarrow> RIBTable" where
  "with_flags f t = t\<lparr>stop_updating := f\<rparr>"

definition outcome :: "error + RIBTable \<Rightarrow> error + ((string, rib) dict \<times> observer list)" where
  "outcome r = (case r of Inl e \<Rightarrow> Inl e | Inr t \<Rightarrow> Inr (data t, observers t))"

definition set_stop :: "string \<Rightarrow> RIBTable \<Rightarrow> RIBTable" where
  "set_stop rc t = t\<lparr>stop_updating := AList.update rc True (stop_updating t)\<rparr>"

text \<open>
  A conversion for the examples. It gives a value to the time stamps written as a plain
  number of whole seconds, up to the last second of the year 9999: on these texts
  \<^verbatim>\<open>float\<close> and \<^verbatim>\<open>utcfromtimestamp\<close> are exact, and the value is the one the code
  computes. Every other text has no value here, also those the code does convert
  (fractions, exponents, signs, white space around the number): the examples use none,
  and the theorems are stated for every conversion.
\<close>

definition utc_seconds :: "string \<Rightarrow> int option" where
  "utc_seconds s =
     (if digit_string s \<and> dec_value s \<le> 253402300799 then Some (dec_value s * 1000000) else None)"

text \<open>The path stored for a peer and a prefix in the RIB of one collector, and in the
  whole table.\<close>

definition entry :: "rib \<Rightarrow> string \<Rightarrow> string \<Rightarrow> int list option" where
  "entry rib peer_ip pfx = (case map_of rib peer_ip of None \<Rightarrow> None | Some m \<Rightarrow> map_of m pfx)"

definition stored :: "(string, rib) dict \<Rightarrow> string \<Rightarrow> string \<Rightarrow> string \<Rightarrow> int list option" where
  "stored d rc peer_ip pfx = (case map_of d rc of None \<Rightarrow> None | Some rib \<Rightarrow> entry rib peer_ip pfx)"

text \<open>
  An announcement that the loop sanitizes: a line of 15 fields of type \<open>A\<close> for the peer
  and prefix, inside the window [\<open>ts_start\<close>, \<open>ts_end\<close> + 1 s], whose peer passes the
  filter and whose peer ASN field is an integer. And a path text that fails
  sanitization: it does not parse, or the parsed path is not valid for the peer ASN.
\<close>

definition sanitized_announcement ::
  "(string \<Rightarrow> int option) \<Rightarrow> RIBTable \<Rightarrow> string \<Rightarrow> string \<Rightarrow> int \<Rightarrow> string \<Rightarrow> string \<Rightarrow> bool" where
  "sanitized_announcement utc t line peer_ip peer_asn pfx as_path =
     (length (upd_fields line) = 15 \<and> upd_fields line ! 2 = ''A''
      \<and> upd_fields line ! 3 = peer_ip \<and> upd_fields line ! 5 = pfx \<and> upd_fields line ! 6 = as_path
      \<and> py_int (upd_fields line ! 4) = Some peer_asn
      \<and> (case utc (upd_fields line ! 1) of
            None \<Rightarrow> False
          | Some ts \<Rightarrow> ts_start t \<le> ts \<and> ts \<le> ts_end t + 1000000)
      \<and> (peer_ip_filter t = [] \<or> peer_ip \<in> set (peer_ip_filter t)))"

text \<open>A withdrawal that the loop applies: a line of 6 fields of type \<open>W\<close> for the peer and
  prefix, inside the window, whose peer passes the filter.\<close>

definition window_withdrawal ::
  "(string \<Rightarrow> int option) \<Rightarrow> RIBTable \<Rightarrow> string \<Rightarrow> string \<Rightarrow> string \<Rightarrow> bool" where
  "window_withdrawal utc t line peer_ip pfx =
     (length (upd_fields line) = 6 \<and> upd_fields line ! 2 = ''W''
      \<and> upd_fields line ! 3 = peer_ip \<and> upd_fields line ! 5 = pfx
      \<and> (case utc (upd_fields line ! 1) of
            None \<Rightarrow> False
          | Some ts \<Rightarrow> ts_start t \<le> ts \<and> ts \<le> ts_end t + 1000000)
      \<and> (peer_ip_filter t = [] \<or> peer_ip \<in> set (peer_ip_filter t)))"

definition fails_sanitization :: "string \<Rightarrow> int \<Rightarrow> bool" where
  "fails_sanitization as_path peer_asn =
     (case parse_as_path as_path of None \<Rightarrow> True | Some path \<Rightarrow> \<not> is_valid_path path peer_asn)"

text \<open>The result of a file once a line that stops the reading was met: the flag of the
  collector is set.\<close>

definition finish :: "string \<Rightarrow> bool \<Rightarrow> error + (rib \<times> RIBTable) \<Rightarrow> error + (rib \<times> RIBTable)" where
  "finish rc late r =
     (case r of Inl e \<Rightarrow> Inl e
      | Inr s \<Rightarrow> Inr (if late then (fst s, set_stop rc (snd s)) else s))"

definition finish_table :: "string \<Rightarrow> bool \<Rightarrow> error + RIBTable \<Rightarrow> error + RIBTable" where
  "finish_table rc late r =
     (case r of Inl e \<Rightarrow> Inl e | Inr t \<Rightarrow> Inr (if late then set_stop rc t else t))"

subsection \<open>A small table and some records, for the examples\<close>

definition example_table :: RIBTable where
  "example_table =
     \<lparr>observers = [PathObserver ''path'' [([100, 200, 300], 1)],
                   UpdateCountObserver ''update_count'' empty_counts],
      data = [(''rrc00'', [(''1.2.3.4'', [(''10.0.0.0/24'', [100, 200, 300])])])],
      stop_updating = [(''rrc00'', False)],
      peer_ip_filter = [],
      ts_start = 100000000,
      ts_end = 200000000\<rparr>"

definition early_line :: string where
  "early_line = ''BGP4MP|50|W|1.2.3.4|100|10.0.0.0/24''"

definition late_line :: string where
  "late_line = ''BGP4MP|202|W|1.2.3.4|100|10.0.0.0/24''"

definition withdrawal_line :: string where
  "withdrawal_line = ''BGP4MP|150|W|1.2.3.4|100|10.0.0.0/24''"

definition malformed_line :: string where
  "malformed_line = ''BGP4MP|150|A|1.2.3.4|100|10.0.0.0/24|100 {200,201} 300|IGP|1.2.3.4|0|0||NAG||''"

definition example_rib :: rib where
  "example_rib = [(''1.2.3.4'', [(''10.0.0.0/24'', [100, 200, 300])])]"

text \<open>A prefix that holds neither a dot nor a colon.\<close>

definition odd_rib :: rib where
  "odd_rib = [(''1.2.3.4'', [(''unnamed'', [100, 200, 300])])]"

definition odd_line :: string where
  "odd_line = ''BGP4MP|150|A|1.2.3.4|100|unnamed|100 {200,201} 300|IGP|1.2.3.4|0|0||NAG||''"

text \<open>
  A window whose start is after its end, as the driver makes one when it moves
  \<open>ts_start\<close> to the nearest RIB dump and that lies after \<open>ts_end\<close>; and a record between
  the two.
\<close>

definition inverted_table :: RIBTable where
  "inverted_table = example_table\<lparr>ts_start := 300000000\<rparr>"

definition between_line :: string where
  "between_line = ''BGP4MP|250|W|1.2.3.4|100|10.0.0.0/24''"

text \<open>The example table once the collector is stopped, and after a withdrawal.\<close>

definition stopped_table :: RIBTable where
  "stopped_table = set_stop ''rrc00'' example_table"

definition withdrawn_table :: RIBTable where
  "withdrawn_table =
     stopped_table\<lparr>observers :=
         notify (Withdrawal IPv4 ''rrc00'' ''1.2.3.4'' ''10.0.0.0/24'' [100, 200, 300])
           (observers stopped_table),
       data := [(''rrc00'', [(''1.2.3.4'', [])])]\<rparr>"

subsection \<open>The notifications of a build\<close>

text \<open>
  The calls that one record of a RIB dump, and a whole \<^verbatim>\<open>build\<close>, make on the observers:
  an \<^verbatim>\<open>add_path\<close> for every record that is stored and whose prefix has a family, in
  the order of the records. \<open>notify_all\<close> sends a list of calls in turn.
\<close>

definition rib_line_events :: "string list \<Rightarrow> string \<Rightarrow> string \<Rightarrow> event list" where
  "rib_line_events flt rc line =
     (let res = take 4 (drop 3 (py_split CHR ''|'' (py_strip line))) in
      if length res = 4 \<and> (flt = [] \<or> res ! 0 \<in> set flt) then
        (case (py_int (res ! 1), parse_as_path (res ! 3), pfx_family (res ! 2)) of
           (Some peer_asn, Some path, Some fam) \<Rightarrow>
             if is_valid_path path peer_asn then [AddPath fam rc (res ! 0) (res ! 2) path] else []
         | _ \<Rightarrow> [])
      else [])"

definition build_events :: "string list \<Rightarrow> (string, string list) dict \<Rightarrow> event list" where
  "build_events flt rc_to_url =
     concat (map (\<lambda>(rc, url). concat (map (rib_line_events flt rc) url)) rc_to_url)"

definition notify_all :: "event list \<Rightarrow> observer list \<Rightarrow> observer list" where
  "notify_all evs obs = foldl (\<lambda>obs ev. notify ev obs) obs evs"

fun is_add_path :: "event \<Rightarrow> bool" where
  "is_add_path (AddPath fam rc peer_ip pfx path) = True"
| "is_add_path ev = False"

text \<open>The result of a build on a table whose observers are put aside, with the
  observers \<open>obs\<close> put back after the calls \<open>evs\<close>.\<close>

definition with_observers :: "event list \<Rightarrow> observer list \<Rightarrow> error + RIBTable \<Rightarrow> error + RIBTable" where
  "with_observers evs obs r =
     (case r of Inl e \<Rightarrow> Inl e | Inr t \<Rightarrow> Inr (t\<lparr>observers := notify_all evs obs\<rparr>))"

text \<open>A table as the driver sets it up, a record of a RIB dump with a prepended path,
  and the table after one and after two builds from that record.\<close>

definition fresh_table :: RIBTable where
  "fresh_table = attach_observer (PathObserver ''path'' []) (init_RIBTable [] 100000000 200000000)"

definition rib_line :: string where
  "rib_line = ''TABLE_DUMP2|100|B|1.2.3.4|100|10.0.0.0/24|100 100 200 300|IGP|1.2.3.4|0|0||NAG||''"

definition built_table :: "int \<Rightarrow> RIBTable" where
  "built_table n =
     \<lparr>observers = [PathObserver ''path'' [([100, 200, 300], n)]],
      data = [(''rrc00'', [(''1.2.3.4'', [(''10.0.0.0/24'', [100, 200, 300])])])],
      stop_updating = [(''rrc00'', False)],
      peer_ip_filter = [],
      ts_start = 100000000,
      ts_end = 200000000\<rparr>"

subsection \<open>Decimal numerals\<close>

text \<open>The strings of digits without a leading zero.\<close>

definition nlz :: "string \<Rightarrow> bool" where
  "nlz s = (list_all is_digit s \<and> (s = [] \<or> hd s \<noteq> CHR ''0''))"

subsection \<open>The record that announced a stored path\<close>

text \<open>
  A record of a RIB dump, and an announcement of an update file, for a peer and a
  prefix, with the texts of its peer ASN and of its AS path; the lines given for a
  collector; and a path that the sanitizer accepts for these two texts.
\<close>

definition rib_announces :: "string \<Rightarrow> string \<Rightarrow> string \<Rightarrow> string \<Rightarrow> string \<Rightarrow> bool" where
  "rib_announces line peer_ip pfx peer_asn as_path =
     (take 4 (drop 3 (py_split CHR ''|'' (py_strip line))) = [peer_ip, peer_asn, pfx, as_path])"

definition upd_announces :: "string \<Rightarrow> string \<Rightarrow> string \<Rightarrow> string \<Rightarrow> string \<Rightarrow> bool" where
  "upd_announces line peer_ip pfx peer_asn as_path =
     (length (upd_fields line) = 15 \<and> upd_fields line ! 2 = ''A'' \<and> upd_fields line ! 3 = peer_ip
      \<and> upd_fields line ! 4 = peer_asn \<and> upd_fields line ! 5 = pfx \<and> upd_fields line ! 6 = as_path)"

definition lines_of :: "string \<Rightarrow> (string, string list) dict \<Rightarrow> string list" where
  "lines_of rc rc_to_url = concat (map snd (filter (\<lambda>e. fst e = rc) rc_to_url))"

definition sanitized :: "string \<Rightarrow> string \<Rightarrow> int list \<Rightarrow> bool" where
  "sanitized peer_asn as_path path =
     (case py_int peer_asn of
        None \<Rightarrow> False
      | Some asn \<Rightarrow> parse_as_path as_path = Some path \<and> is_valid_path path asn)"

text \<open>A record of a RIB dump whose path repeats the peer ASN with a leading zero, and
  the table built from it.\<close>

definition zero_line :: string where
  "zero_line = ''TABLE_DUMP2|100|B|1.2.3.4|100|10.0.0.0/8|100 0100|IGP|1.2.3.4|0|0||NAG||''"

definition zero_table :: RIBTable where
  "zero_table =
     \<lparr>observers = [PathObserver ''path'' [([100, 100], 1)]],
      data = [(''rrc00'', [(''1.2.3.4'', [(''10.0.0.0/8'', [100, 100])])])],
      stop_updating = [(''rrc00'', False)],
      peer_ip_filter = [],
      ts_start = 100000000,
      ts_end = 200000000\<rparr>"

subsection \<open>What compare may change\<close>

text \<open>
  A graph observer with the isolated vertices of its IPv4 graph removed (the other
  observers as they are); an observer whose \<^verbatim>\<open>compare\<close> can be called with a given
  other observer; and the tables \<^verbatim>\<open>compare\<close> handles without an exception: every
  collector of \<^verbatim>\<open>self\<close> that has a peer is a collector of \<^verbatim>\<open>other\<close>, and observers of the
  same name can be compared.
\<close>

fun strip_isolates :: "observer \<Rightarrow> observer" where
  "strip_isolates (ASGraphObserver n g4 g6) = ASGraphObserver n (remove_isolates g4) g6"
| "strip_isolates obs = obs"

fun comparable :: "observer \<Rightarrow> observer \<Rightarrow> bool" where
  "comparable (ASGraphObserver n g4 g6) (ASGraphObserver n' h4 h6) = True"
| "comparable (ASGraphObserver n g4 g6) (ASMultiGraphObserver n' h4 h6) = True"
| "comparable (ASGraphObserver n g4 g6) other = False"
| "comparable (ASMultiGraphObserver n g4 g6) other = False"
| "comparable own other = True"

text \<open>
  An observer after \<^verbatim>\<open>compare\<close>, against the observer before: it is as it was, or it
  bears the name of one of the other observers and has lost the isolated vertices of its
  IPv4 graph. And the observers of \<^verbatim>\<open>self\<close> after a \<^verbatim>\<open>compare\<close> that did not raise: the
  ones that bear the name of an observer of \<^verbatim>\<open>other\<close> have lost these vertices.
\<close>

definition stripped_by :: "observer list \<Rightarrow> observer \<Rightarrow> observer \<Rightarrow> bool" where
  "stripped_by others own' own =
     (own' = own \<or> (name own \<in> set (map name others) \<and> own' = strip_isolates own))"

definition strip_matched :: "observer list \<Rightarrow> observer list \<Rightarrow> observer list" where
  "strip_matched others own =
     map (\<lambda>ob. if name ob \<in> set (map name others) then strip_isolates ob else ob) own"

definition compare_ready :: "RIBTable \<Rightarrow> RIBTable \<Rightarrow> bool" where
  "compare_ready self other =
     (list_all (\<lambda>e. snd e = [] \<or> has_key (data other) (fst e)) (data self)
      \<and> list_all (\<lambda>oo. list_all (\<lambda>own. name oo \<noteq> name own \<or> comparable own oo) (observers self))
           (observers other))"

text \<open>A table with a graph observer that holds two vertices and no edge, and the table a
  ground truth is built into.\<close>

definition isolated_table :: RIBTable where
  "isolated_table =
     \<lparr>observers = [ASGraphObserver ''graph'' \<lparr>nodes = [1, 2], edges = []\<rparr> empty_graph],
      data = [(''rrc00'', [(''1.2.3.4'', [])])], stop_updating = [(''rrc00'', True)],
      peer_ip_filter = [], ts_start = 100000000, ts_end = 200000000\<rparr>"

text \<open>The same with a second graph observer, whose name no observer of the ground truth
  bears.\<close>

definition spare_table :: RIBTable where
  "spare_table =
     isolated_table\<lparr>observers :=
       [ASGraphObserver ''graph'' \<lparr>nodes = [1, 2], edges = []\<rparr> empty_graph,
        ASGraphObserver ''spare'' \<lparr>nodes = [3], edges = []\<rparr> empty_graph]\<rparr>"

definition truth_table :: RIBTable where
  "truth_table =
     \<lparr>observers = [ASGraphObserver ''graph'' empty_graph empty_graph],
      data = [(''rrc00'', [])], stop_updating = [(''rrc00'', False)],
      peer_ip_filter = [], ts_start = 100000000, ts_end = 200000000\<rparr>"

text \<open>The two tables after \<^verbatim>\<open>compare\<close>.\<close>

definition stripped_spare_table :: RIBTable where
  "stripped_spare_table =
     spare_table\<lparr>observers :=
       [ASGraphObserver ''graph'' empty_graph empty_graph,
        ASGraphObserver ''spare'' \<lparr>nodes = [3], edges = []\<rparr> empty_graph]\<rparr>"

definition filled_truth_table :: RIBTable where
  "filled_truth_table = truth_table\<lparr>data := [(''rrc00'', [(''1.2.3.4'', [])])]\<rparr>"

section \<open>Properties of the observers\<close>

subsection \<open>Auxiliary facts\<close>


lemma list_all_update:
  "list_all P al \<Longrightarrow> P (k, v) \<Longrightarrow> list_all P (AList.update k v al)"
  by (induction al) auto

lemma list_all_delete: "list_all P al \<Longrightarrow> list_all P (AList.delete k al)"
  by (induction al) auto

lemma pos_dict_update: "pos_dict d \<Longrightarrow> 0 < v \<Longrightarrow> pos_dict (AList.update k v d)"
  by (simp add: pos_dict_def distinct_update list_all_update)

lemma pos_dict_delete: "pos_dict d \<Longrightarrow> pos_dict (AList.delete k d)"
  by (simp add: pos_dict_def distinct_delete list_all_delete)

lemma pos_dict_lookup: "pos_dict d \<Longrightarrow> map_of d k = Some c \<Longrightarrow> 0 < c"
  by (auto simp: pos_dict_def list_all_iff dest: map_of_SomeD)

lemma pos_dict_Nil: "pos_dict []"
  by (simp add: pos_dict_def)

lemma get0_nonneg: "pos_dict d \<Longrightarrow> 0 \<le> get0 d k"
  by (auto simp: get0_def split: option.splits dest: pos_dict_lookup)

lemma pos_dict_bump: "pos_dict d \<Longrightarrow> pos_dict (bump d k)"
  unfolding bump_def using get0_nonneg [of d k] by (simp add: pos_dict_update)

lemma pos_incr_edge:
  assumes "pos_dict (edges g)"
  shows "pos_dict (edges (incr_edge e u v g))"
proof (cases "map_of (edges g) e")
  case None
  then show ?thesis using assms by (simp add: incr_edge_def add_edge_def pos_dict_update)
next
  case (Some c)
  then have "0 < c" using assms by (rule pos_dict_lookup [rotated])
  then show ?thesis using Some assms by (simp add: incr_edge_def pos_dict_update)
qed

lemma pos_decr_edge:
  assumes "pos_dict (edges g)"
  shows "pos_dict (edges (decr_edge e g))"
proof (cases "map_of (edges g) e")
  case None
  then show ?thesis using assms by (simp add: decr_edge_def)
next
  case (Some c)
  then have "0 < c" using assms by (rule pos_dict_lookup [rotated])
  show ?thesis
  proof (cases "c - 1 = 0")
    case True
    then show ?thesis using Some assms
      by (simp add: decr_edge_def remove_edge_def delete_update_same pos_dict_delete)
  next
    case False
    with \<open>0 < c\<close> have "0 < c - 1" by simp
    then show ?thesis using Some False assms
      by (simp add: decr_edge_def pos_dict_update)
  qed
qed

lemma pos_add_path_edges:
  "pos_dict (edges g) \<Longrightarrow> pos_dict (edges (add_path_edges k g p))"
  by (induction k g p rule: add_path_edges.induct) (simp_all add: pos_incr_edge)

lemma pos_remove_path_edges:
  "pos_dict (edges g) \<Longrightarrow> pos_dict (edges (remove_path_edges k g p))"
  by (induction k g p rule: remove_path_edges.induct) (simp_all add: pos_decr_edge)

lemma pos_PathObserver_add: "pos_dict pc \<Longrightarrow> pos_dict (PathObserver_add_path pc p)"
  by (simp add: PathObserver_add_path_def pos_dict_bump)

lemma pos_PathObserver_remove: "pos_dict pc \<Longrightarrow> pos_dict (PathObserver_remove_path pc p)"
  by (simp add: PathObserver_remove_path_def Let_def delete_update_same
      pos_dict_update pos_dict_delete)


lemma pos_dict2_lookup: "pos_dict2 d \<Longrightarrow> map_of d k = Some inner \<Longrightarrow> pos_dict inner"
  by (auto simp: pos_dict2_def list_all_iff dest: map_of_SomeD)

lemma pos_dict2_bump2:
  assumes "pos_dict2 d"
  shows "pos_dict2 (bump2 d rc peer_ip)"
proof -
  have "pos_dict (case map_of d rc of None \<Rightarrow> [] | Some inner \<Rightarrow> inner)"
    using assms by (auto simp: pos_dict_Nil split: option.splits dest: pos_dict2_lookup)
  then have "pos_dict (bump (case map_of d rc of None \<Rightarrow> [] | Some inner \<Rightarrow> inner) peer_ip)"
    by (rule pos_dict_bump)
  then show ?thesis
    using assms by (simp add: pos_dict2_def bump2_def distinct_update list_all_update)
qed

lemma counts_positive_initial: "is_initial obs \<Longrightarrow> counts_positive obs"
  by (cases obs) (simp_all add: empty_graph_def empty_counts_def pos_dict_Nil pos_dict2_def)

lemma counts_positive_add_path:
  "counts_positive obs \<Longrightarrow> counts_positive (add_path fam rc peer_ip pfx path obs)"
  by (cases obs; cases fam)
     (simp_all add: ASGraphObserver_add_path_def ASMultiGraphObserver_add_path_def
        pos_add_path_edges pos_PathObserver_add)

lemma counts_positive_withdrawal:
  "counts_positive obs \<Longrightarrow> counts_positive (update_withdrawal fam rc peer_ip pfx path obs)"
  by (cases obs; cases fam)
     (simp_all add: ASGraphObserver_remove_path_def ASMultiGraphObserver_remove_path_def
        pos_remove_path_edges pos_PathObserver_remove pos_dict_bump pos_dict2_bump2)

lemma counts_positive_announcement:
  "counts_positive obs \<Longrightarrow> counts_positive (update_announcement fam rc peer_ip pfx new_path old_path obs)"
  by (cases obs; cases fam)
     (simp_all add: ASGraphObserver_remove_path_def ASMultiGraphObserver_remove_path_def
        ASGraphObserver_add_path_def ASMultiGraphObserver_add_path_def pos_add_path_edges
        pos_remove_path_edges pos_PathObserver_remove pos_PathObserver_add pos_dict_bump pos_dict2_bump2
        split: option.splits list.splits)

lemma counts_positive_deliver: "counts_positive obs \<Longrightarrow> counts_positive (deliver ev obs)"
  by (cases ev)
     (simp_all add: counts_positive_add_path counts_positive_withdrawal counts_positive_announcement)

lemma counts_positive_deliver_all:
  "counts_positive obs \<Longrightarrow> counts_positive (deliver_all evs obs)"
  unfolding deliver_all_def
  by (induction evs arbitrary: obs) (simp_all add: counts_positive_deliver)

lemma edges_incr_edge: "edges (incr_edge e u v g) = inc_key e (edges g)"
  by (simp add: incr_edge_def inc_key_def add_edge_def split: option.splits)

lemma edges_decr_edge: "edges (decr_edge e g) = dec_key e (edges g)"
  by (simp add: decr_edge_def dec_key_def remove_edge_def delete_update_same Let_def
      split: option.splits)

lemma nodes_decr_edge: "nodes (decr_edge e g) = nodes g"
  by (simp add: decr_edge_def remove_edge_def Let_def split: option.splits)

lemma edges_add_path_edges:
  "edges (add_path_edges k g p) = foldl (\<lambda>d e. inc_key e d) (edges g) (path_keys k p)"
  by (induction k g p rule: add_path_edges.induct) (simp_all add: edges_incr_edge)

lemma edges_remove_path_edges:
  "edges (remove_path_edges k g p) = foldl (\<lambda>d e. dec_key e d) (edges g) (path_keys k p)"
  by (induction k g p rule: remove_path_edges.induct) (simp_all add: edges_decr_edge)

lemma nodes_remove_path_edges: "nodes (remove_path_edges k g p) = nodes g"
  by (induction k g p rule: remove_path_edges.induct) (simp_all add: nodes_decr_edge)

lemma pos_inc_key: "pos_dict d \<Longrightarrow> pos_dict (inc_key e d)"
  using pos_incr_edge [of "\<lparr>nodes = [], edges = d\<rparr>" e 0 0] by (simp add: edges_incr_edge)

lemma pos_dec_key: "pos_dict d \<Longrightarrow> pos_dict (dec_key e d)"
  using pos_decr_edge [of "\<lparr>nodes = [], edges = d\<rparr>" e] by (simp add: edges_decr_edge)

lemma pos_incs: "pos_dict d \<Longrightarrow> pos_dict (foldl (\<lambda>d e. inc_key e d) d es)"
  by (induction es arbitrary: d) (simp_all add: pos_inc_key)

lemma sub_counts_cong:
  "(\<And>k. k \<in> fst ` set d \<Longrightarrow> f k = g k) \<Longrightarrow> sub_counts f d = sub_counts g d"
  by (induction d) auto

lemma sub_counts_zero: "pos_dict d \<Longrightarrow> sub_counts (\<lambda>k. 0) d = d"
  by (induction d) (auto simp: pos_dict_def)

lemma update_absent: "map_of d k = None \<Longrightarrow> AList.update k v d = d @ [(k, v)]"
  by (induction d) (auto split: if_splits)

lemma update_present:
  "map_of d k = Some c \<Longrightarrow> distinct (map fst d) \<Longrightarrow>
   AList.update k v d = map (\<lambda>kc. if fst kc = k then (k, v) else kc) d"
proof (induction d)
  case Nil
  then show ?case by simp
next
  case (Cons a d)
  show ?case
  proof (cases "fst a = k")
    case True
    then have "k \<notin> fst ` set d" using Cons.prems(2) by auto
    then have "map (\<lambda>kc. if fst kc = k then (k, v) else kc) d = d"
      by (intro map_idI) auto
    then show ?thesis using True by simp
  next
    case False
    then show ?thesis using Cons by (cases a) auto
  qed
qed

lemma dec_key_Cons:
  "dec_key e ((k, c) # d) =
     (if k = e then (if c - 1 = 0 then AList.delete e d else (e, c - 1) # d)
      else (k, c) # dec_key e d)"
  by (simp add: dec_key_def split: option.splits)

lemma sub_counts_dec_key:
  assumes "pos_dict d" and "\<And>k. 0 \<le> f k"
  shows "sub_counts f (dec_key e d) = sub_counts (\<lambda>k. f k + (if k = e then 1 else 0)) d"
  using assms(1)
proof (induction d)
  case Nil
  then show ?case by (simp add: dec_key_def)
next
  case (Cons a d)
  obtain k c where a: "a = (k, c)" by (cases a)
  have pd: "pos_dict d" and kd: "k \<notin> fst ` set d" and c: "0 < c"
    using Cons.prems by (auto simp: pos_dict_def a)
  show ?case
  proof (cases "k = e")
    case True
    have same: "sub_counts (\<lambda>k. f k + (if k = e then 1 else 0)) d = sub_counts f d"
      using kd True by (intro sub_counts_cong) auto
    show ?thesis
      using True kd c assms(2) [of e] by (auto simp: a dec_key_Cons same)
  next
    case False
    then show ?thesis using Cons.IH [OF pd] by (simp add: a dec_key_Cons)
  qed
qed

lemma decs_sub_counts:
  "pos_dict d \<Longrightarrow> foldl (\<lambda>d e. dec_key e d) d es = sub_counts (occ es) d"
proof (induction es arbitrary: d)
  case Nil
  then show ?case by (simp add: occ_def sub_counts_zero)
next
  case (Cons e es)
  have "foldl (\<lambda>d e. dec_key e d) d (e # es) = sub_counts (occ es) (dec_key e d)"
    using Cons.IH [OF pos_dec_key [OF Cons.prems]] by simp
  also have "\<dots> = sub_counts (\<lambda>k. occ es k + (if k = e then 1 else 0)) d"
    by (rule sub_counts_dec_key [OF Cons.prems]) (simp add: occ_def)
  also have "(\<lambda>k. occ es k + (if k = e then 1 else 0)) = occ (e # es)"
    by (auto simp: occ_def fun_eq_iff)
  finally show ?case .
qed

lemma incs_shape:
  "distinct (map fst d) \<Longrightarrow>
   \<exists>new. foldl (\<lambda>d e. inc_key e d) d es = map (\<lambda>kc. (fst kc, snd kc + occ es (fst kc))) d @ new
      \<and> fst ` set new \<inter> fst ` set d = {}
      \<and> list_all (\<lambda>kc. snd kc = occ es (fst kc)) new"
proof (induction es arbitrary: d)
  case Nil
  then show ?case by (simp add: occ_def)
next
  case (Cons e es)
  show ?case
  proof (cases "map_of d e")
    case None
    then have e: "e \<notin> fst ` set d" by (simp add: map_of_eq_None_iff)
    have d1: "inc_key e d = d @ [(e, 1)]"
      using None by (simp add: inc_key_def update_absent)
    have "distinct (map fst (d @ [(e, 1)]))" using Cons.prems e by simp
    from Cons.IH [OF this] obtain new where
      eq: "foldl (\<lambda>d e. inc_key e d) (d @ [(e, 1)]) es =
             map (\<lambda>kc. (fst kc, snd kc + occ es (fst kc))) (d @ [(e, 1)]) @ new"
      and disj: "fst ` set new \<inter> fst ` set (d @ [(e, 1)]) = {}"
      and vals: "list_all (\<lambda>kc. snd kc = occ es (fst kc)) new"
      by blast
    have m: "map (\<lambda>kc. (fst kc, snd kc + occ es (fst kc))) d
           = map (\<lambda>kc. (fst kc, snd kc + occ (e # es) (fst kc))) d"
      using e by (intro map_cong) (auto simp: occ_def)
    have v: "list_all (\<lambda>kc. snd kc = occ (e # es) (fst kc)) ((e, 1 + occ es e) # new)"
      using vals disj by (auto simp: list_all_iff occ_def)
    have "foldl (\<lambda>d e. inc_key e d) d (e # es)
           = map (\<lambda>kc. (fst kc, snd kc + occ (e # es) (fst kc))) d @ ((e, 1 + occ es e) # new)"
      using eq by (simp add: d1 m)
    moreover have "fst ` set ((e, 1 + occ es e) # new) \<inter> fst ` set d = {}"
      using disj e by auto
    ultimately show ?thesis using v by blast
  next
    case (Some c)
    then have e: "e \<in> fst ` set d" by (metis map_of_eq_None_iff option.distinct(1))
    have d1: "inc_key e d = map (\<lambda>kc. if fst kc = e then (e, c + 1) else kc) d"
      using Some Cons.prems by (simp add: inc_key_def update_present)
    have c: "\<And>kc. kc \<in> set d \<Longrightarrow> fst kc = e \<Longrightarrow> snd kc = c"
      using Some Cons.prems by (metis map_of_is_SomeI option.inject prod.collapse)
    have dist: "distinct (map fst (inc_key e d))"
      using Cons.prems by (simp add: inc_key_def distinct_update split: option.splits)
    have keys: "fst ` set (inc_key e d) = fst ` set d"
      using e by (auto simp: inc_key_def dom_update split: option.splits)
    from Cons.IH [OF dist] obtain new where
      eq: "foldl (\<lambda>d e. inc_key e d) (inc_key e d) es =
             map (\<lambda>kc. (fst kc, snd kc + occ es (fst kc))) (inc_key e d) @ new"
      and disj: "fst ` set new \<inter> fst ` set (inc_key e d) = {}"
      and vals: "list_all (\<lambda>kc. snd kc = occ es (fst kc)) new"
      by blast
    have m: "map (\<lambda>kc. (fst kc, snd kc + occ es (fst kc))) (inc_key e d)
           = map (\<lambda>kc. (fst kc, snd kc + occ (e # es) (fst kc))) d"
      unfolding d1 using c by (auto simp: occ_def)
    have v: "list_all (\<lambda>kc. snd kc = occ (e # es) (fst kc)) new"
      using vals disj e unfolding keys by (auto simp: list_all_iff occ_def)
    have "foldl (\<lambda>d e. inc_key e d) d (e # es)
           = map (\<lambda>kc. (fst kc, snd kc + occ (e # es) (fst kc))) d @ new"
      using eq by (simp add: m)
    then show ?thesis using v disj unfolding keys by blast
  qed
qed

lemma sub_counts_append: "sub_counts f (xs @ ys) = sub_counts f xs @ sub_counts f ys"
  by (induction xs) auto

lemma sub_counts_added: "pos_dict d \<Longrightarrow> sub_counts f (map (\<lambda>kc. (fst kc, snd kc + f (fst kc))) d) = d"
  by (induction d) (auto simp: pos_dict_def)

lemma sub_counts_new: "list_all (\<lambda>kc. snd kc = f (fst kc)) new \<Longrightarrow> sub_counts f new = []"
  by (induction new) auto

lemma decs_incs:
  assumes "pos_dict d"
  shows "foldl (\<lambda>d e. dec_key e d) (foldl (\<lambda>d e. inc_key e d) d es) es = d"
proof -
  from assms have "distinct (map fst d)" by (simp add: pos_dict_def)
  from incs_shape [OF this, of es] obtain new where
    eq: "foldl (\<lambda>d e. inc_key e d) d es = map (\<lambda>kc. (fst kc, snd kc + occ es (fst kc))) d @ new"
    and vals: "list_all (\<lambda>kc. snd kc = occ es (fst kc)) new"
    by blast
  have "foldl (\<lambda>d e. dec_key e d) (foldl (\<lambda>d e. inc_key e d) d es) es
      = sub_counts (occ es) (foldl (\<lambda>d e. inc_key e d) d es)"
    by (rule decs_sub_counts [OF pos_incs [OF assms]])
  also have "\<dots> = d"
    by (simp add: eq sub_counts_append sub_counts_added [OF assms] sub_counts_new [OF vals])
  finally show ?thesis .
qed

lemma remove_add_path_edges:
  "pos_dict (edges g) \<Longrightarrow>
   edges (remove_path_edges k (add_path_edges k g p) p) = edges g
   \<and> nodes (remove_path_edges k (add_path_edges k g p) p) = nodes (add_path_edges k g p)"
  by (simp add: edges_remove_path_edges edges_add_path_edges decs_incs nodes_remove_path_edges)

lemma PathObserver_remove_add:
  assumes "pos_dict pc"
  shows "PathObserver_remove_path (PathObserver_add_path pc p) p = pc"
proof (cases "map_of pc p")
  case None
  then have "p \<notin> fst ` set pc" by (simp add: map_of_eq_None_iff)
  then show ?thesis using None
    by (simp add: PathObserver_remove_path_def PathObserver_add_path_def bump_def get0_def
        update_conv' delete_update_same)
next
  case (Some c)
  then have "0 < c" using assms by (rule pos_dict_lookup [rotated])
  then show ?thesis using Some
    by (simp add: PathObserver_remove_path_def PathObserver_add_path_def bump_def get0_def
        update_conv' update_triv)
qed

section \<open>Announcement symmetry\<close>

text \<open>
  C5. For the graph, the multigraph and the path observer, an announcement that carries a
  non-empty old path \<open>o\<close> and the new path \<open>n\<close> leaves the observer in the state that
  removing \<open>o\<close> (what a withdrawal of \<open>o\<close> does) and then adding \<open>n\<close> leaves it in.
\<close>

theorem announcement_symmetry:
  assumes "old_path \<noteq> []"
  shows "update_announcement fam rc peer_ip pfx new_path (Some old_path) (ASGraphObserver n g4 g6) =
           add_path fam rc peer_ip pfx new_path
             (update_withdrawal fam rc peer_ip pfx old_path (ASGraphObserver n g4 g6))
       \<and> update_announcement fam rc peer_ip pfx new_path (Some old_path) (ASMultiGraphObserver n m4 m6) =
           add_path fam rc peer_ip pfx new_path
             (update_withdrawal fam rc peer_ip pfx old_path (ASMultiGraphObserver n m4 m6))
       \<and> update_announcement fam rc peer_ip pfx new_path (Some old_path) (PathObserver n pc) =
           add_path fam rc peer_ip pfx new_path
             (update_withdrawal fam rc peer_ip pfx old_path (PathObserver n pc))"
  using assms by (cases fam; cases old_path; simp)

theorem announcement_symmetry_witness:
  "[100, 200, 300] \<noteq> ([] :: int list)
   \<and> update_announcement IPv4 ''rrc00'' ''1.2.3.4'' ''10.0.0.0/24'' [100, 200, 400]
         (Some [100, 200, 300]) (PathObserver ''path'' [([100, 200, 300], 1)])
       = PathObserver ''path'' [([100, 200, 400], 1)]"
  using announcement_symmetry [of "[100, 200, 300]" IPv4 "''rrc00''" "''1.2.3.4''"
      "''10.0.0.0/24''" "[100, 200, 400]" "''path''" empty_graph empty_graph
      empty_graph empty_graph "[([100, 200, 300], 1)]"]
  by (simp add: PathObserver_add_path_def PathObserver_remove_path_def bump_def get0_def)

section \<open>Non-negativity of the counts\<close>

text \<open>
  C7. Whatever sequence of \<^verbatim>\<open>add_path\<close>, \<^verbatim>\<open>update_announcement\<close> and
  \<^verbatim>\<open>update_withdrawal\<close> calls an observer receives after its construction, every count
  it holds afterwards (the \<^verbatim>\<open>paths_count\<close> of a graph edge and of a multigraph edge per
  key, the multiplicity of a path, the update counters) is at least 1: no count is
  negative, and an edge or path whose count reaches zero is not kept.
\<close>

theorem counts_never_negative:
  "is_initial obs \<Longrightarrow> counts_positive (deliver_all evs obs)"
  by (simp add: counts_positive_initial counts_positive_deliver_all)

theorem counts_never_negative_witness:
  "is_initial (ASGraphObserver ''graph'' empty_graph empty_graph)
   \<and> counts_positive
        (deliver_all
           [AddPath IPv4 ''rrc00'' ''1.2.3.4'' ''10.0.0.0/24'' [100, 200, 300],
            Withdrawal IPv4 ''rrc00'' ''1.2.3.4'' ''10.0.0.0/24'' [100, 200, 300],
            Withdrawal IPv4 ''rrc00'' ''1.2.3.4'' ''10.0.0.0/24'' [100, 200, 300]]
           (ASGraphObserver ''graph'' empty_graph empty_graph))"
  using counts_never_negative [of "ASGraphObserver ''graph'' empty_graph empty_graph"]
  by simp

section \<open>Adding a path and removing it again\<close>

text \<open>
  C6, as the claim states it, fails on the graph observer: \<^verbatim>\<open>add_edge\<close> creates the
  vertices of a new edge and \<^verbatim>\<open>remove_edge\<close> leaves them in the graph, so the graph
  that was empty holds the vertices 1 and 2 after adding and removing the path 1 2.
\<close>

theorem round_trip_counterexample:
  "update_withdrawal IPv4 ''rrc00'' ''1.2.3.4'' ''10.0.0.0/24'' [1, 2]
     (add_path IPv4 ''rrc00'' ''1.2.3.4'' ''10.0.0.0/24'' [1, 2]
        (ASGraphObserver ''graph'' empty_graph empty_graph))
   \<noteq> ASGraphObserver ''graph'' empty_graph empty_graph"
  by (simp add: ASGraphObserver_add_path_def ASGraphObserver_remove_path_def incr_edge_def
      decr_edge_def add_edge_def remove_edge_def add_node_def ekey_def empty_graph_def)

text \<open>
  C6, amended. In every state a graph, multigraph or path observer reaches from its
  construction, \<^verbatim>\<open>add_path(p)\<close> followed by the removal of \<open>p\<close> restores every edge, every
  count and the whole path counter, in their order; the vertex lists are those
  \<^verbatim>\<open>add_path(p)\<close> left (the vertices of \<open>p\<close> stay in the graph). The path observer has
  no vertices and is back in its prior state exactly.
\<close>

theorem add_remove_round_trip:
  assumes "is_initial obs0" and "obs = deliver_all evs obs0" and "\<not> is_update_count obs"
  shows "edge_state (update_withdrawal fam rc peer_ip pfx p (add_path fam rc peer_ip pfx p obs))
           = edge_state obs
       \<and> vertices (update_withdrawal fam rc peer_ip pfx p (add_path fam rc peer_ip pfx p obs))
           = vertices (add_path fam rc peer_ip pfx p obs)"
proof -
  have pos: "counts_positive obs"
    using assms(1,2) by (simp add: counts_positive_initial counts_positive_deliver_all)
  show ?thesis
  proof (cases obs)
    case (ASGraphObserver n g4 g6)
    then show ?thesis using pos
      by (cases fam)
        (simp_all add: ASGraphObserver_add_path_def ASGraphObserver_remove_path_def
          remove_add_path_edges)
  next
    case (ASMultiGraphObserver n g4 g6)
    then show ?thesis using pos
      by (cases fam)
        (simp_all add: ASMultiGraphObserver_add_path_def ASMultiGraphObserver_remove_path_def
          remove_add_path_edges)
  next
    case (PathObserver n pc)
    then show ?thesis using pos by (simp add: PathObserver_remove_add)
  next
    case (UpdateCountObserver n s)
    then show ?thesis using assms(3) by simp
  qed
qed

theorem add_remove_round_trip_witness:
  "is_initial (PathObserver ''path'' [])
   \<and> PathObserver ''path'' [([100, 200], 1)]
       = deliver_all [AddPath IPv4 ''rrc00'' ''1.2.3.4'' ''10.0.0.0/24'' [100, 200]]
           (PathObserver ''path'' [])
   \<and> \<not> is_update_count (PathObserver ''path'' [([100, 200], 1)])
   \<and> update_withdrawal IPv4 ''rrc00'' ''1.2.3.4'' ''10.0.0.0/8'' [100, 300]
        (add_path IPv4 ''rrc00'' ''1.2.3.4'' ''10.0.0.0/8'' [100, 300]
           (PathObserver ''path'' [([100, 200], 1)]))
       = PathObserver ''path'' [([100, 200], 1)]"
proof -
  have init: "is_initial (PathObserver ''path'' [])" by simp
  have run: "PathObserver ''path'' [([100, 200], 1)]
       = deliver_all [AddPath IPv4 ''rrc00'' ''1.2.3.4'' ''10.0.0.0/24'' [100, 200]]
           (PathObserver ''path'' [])"
    by (simp add: deliver_all_def PathObserver_add_path_def bump_def get0_def)
  have nuc: "\<not> is_update_count (PathObserver ''path'' [([100, 200], 1)])" by simp
  have "edge_state (update_withdrawal IPv4 ''rrc00'' ''1.2.3.4'' ''10.0.0.0/8'' [100, 300]
        (add_path IPv4 ''rrc00'' ''1.2.3.4'' ''10.0.0.0/8'' [100, 300]
           (PathObserver ''path'' [([100, 200], 1)])))
      = edge_state (PathObserver ''path'' [([100, 200], 1)])"
    using add_remove_round_trip [OF init run nuc] by blast
  then show ?thesis using init nuc
    by (simp add: deliver_all_def PathObserver_add_path_def PathObserver_remove_path_def
        bump_def get0_def)
qed

section \<open>Properties of the RIB store\<close>

subsection \<open>Auxiliary facts on the sanitizer\<close>


lemma those_map_None: "(those (map f xs) = None) = (\<exists>x\<in>set xs. f x = None)"
  by (induction xs) (auto split: option.splits)

lemma those_map_Some: "those (map f xs) = Some ys \<Longrightarrow> ys = map (\<lambda>x. the (f x)) xs"
  by (induction xs arbitrary: ys) (auto split: option.splits)

lemma groupby_hd: "\<exists>g rest. groupby (x # xs) = (x, g) # rest"
  by (cases "groupby xs") auto

lemma groupby_keys: "map fst (groupby xs) = remdups_adj xs"
proof (induction xs rule: remdups_adj.induct)
  case (3 x y xs)
  obtain g rest where g: "groupby (y # xs) = (y, g) # rest"
    using groupby_hd [of y xs] by blast
  show ?case
  proof (cases "x = y")
    case True
    then show ?thesis using 3 g by simp
  next
    case False
    then show ?thesis using 3 g by simp
  qed
qed simp_all

lemma parse_as_path_alt:
  "parse_as_path a = those (map py_int (remdups_adj (py_split CHR '' '' a)))"
  by (simp add: parse_as_path_def groupby_keys [symmetric] comp_def)

lemma not_space_digit: "is_digit c \<Longrightarrow> \<not> is_int_space c"
  by (auto simp: is_digit_def is_int_space_def)

lemma dropWhile_hd: "s \<noteq> [] \<Longrightarrow> \<not> P (hd s) \<Longrightarrow> dropWhile P s = s"
  by (cases s) auto

lemma int_strip_id:
  assumes "s \<noteq> []" and "\<not> is_int_space (hd s)" and "\<not> is_int_space (last s)"
  shows "int_strip s = s"
proof -
  have "dropWhile is_int_space (rev s) = rev s"
    using assms by (intro dropWhile_hd) (simp_all add: hd_rev)
  then show ?thesis using assms by (simp add: int_strip_def dropWhile_hd)
qed

lemma py_digits_value:
  "list_all is_digit ds \<Longrightarrow> py_digits acc ds = Some (foldl (\<lambda>a c. 10 * a + digit_val c) acc ds)"
  by (induction ds arbitrary: acc) auto

lemma py_int_digits:
  assumes "digit_string tok"
  shows "py_int tok = (if length tok \<le> int_max_str_digits then Some (dec_value tok) else None)"
proof -
  obtain c cs where tok: "tok = c # cs" using assms by (cases tok) (auto simp: digit_string_def)
  have d: "is_digit c" "list_all is_digit cs" using assms by (auto simp: digit_string_def tok)
  have "is_digit (last tok)" using assms
    by (metis digit_string_def last_in_set list_all_iff)
  then have "int_strip tok = tok"
    using d by (intro int_strip_id) (auto simp: tok not_space_digit)
  moreover have "c \<noteq> CHR ''-''" "c \<noteq> CHR ''+''" using d by (auto simp: is_digit_def)
  ultimately have i: "py_int tok = py_numeral tok"
    by (simp add: py_int_def tok)
  have "filter is_digit tok = tok"
    using assms by (simp add: digit_string_def list_all_iff)
  then have "py_numeral tok = (if length tok \<le> int_max_str_digits then py_digits (digit_val c) cs else None)"
    unfolding py_numeral_def using d(1) by (simp add: tok)
  then have "py_int tok = (if length tok \<le> int_max_str_digits then py_digits (digit_val c) cs else None)"
    by (simp only: i)
  moreover have "py_digits (digit_val c) cs = Some (dec_value tok)"
    using d(2) by (simp add: py_digits_value dec_value_def tok)
  ultimately show ?thesis by simp
qed

lemma py_int_digit_string:
  assumes "short_digit_string tok"
  shows "py_int tok \<noteq> None"
  using assms py_int_digits [of tok] by (simp add: short_digit_string_def)

lemma py_digits_chars: "py_digits acc cs = Some n \<Longrightarrow> list_all int_char cs"
  by (induction acc cs rule: py_digits.induct)
     (auto simp: int_char_def split: if_splits list.splits)

lemma py_numeral_chars: "py_numeral cs = Some n \<Longrightarrow> list_all int_char cs"
  by (auto simp: py_numeral_def int_char_def split: list.splits if_splits dest: py_digits_chars)

lemma dropWhile_chars: "list_all P (dropWhile Q s) \<Longrightarrow> (\<And>c. Q c \<Longrightarrow> P c) \<Longrightarrow> list_all P s"
  by (induction s) (auto split: if_splits)

lemma int_strip_chars:
  assumes "list_all int_char (int_strip s)"
  shows "list_all int_char s"
proof -
  have "list_all int_char (rev (dropWhile is_int_space (rev (dropWhile is_int_space s))))"
    using assms by (simp add: int_strip_def)
  then have "list_all int_char (dropWhile is_int_space (rev (dropWhile is_int_space s)))"
    by (simp add: list_all_iff)
  then have "list_all int_char (rev (dropWhile is_int_space s))"
    by (rule dropWhile_chars) (simp add: int_char_def)
  then have "list_all int_char (dropWhile is_int_space s)"
    by (simp add: list_all_iff)
  then show ?thesis
    by (rule dropWhile_chars) (simp add: int_char_def)
qed

lemma py_int_chars:
  assumes "py_int tok = Some n"
  shows "list_all int_char tok"
proof -
  have "list_all int_char (int_strip tok)"
    using assms
    by (auto simp: py_int_def int_char_def split: list.splits if_splits dest: py_numeral_chars)
  then show ?thesis by (rule int_strip_chars)
qed

lemma py_split_nonempty: "py_split sep s \<noteq> []"
  by (induction s) (auto split: list.splits)

lemma py_split_member:
  "c \<in> set s \<Longrightarrow> c \<noteq> sep \<Longrightarrow> \<exists>w\<in>set (py_split sep s). c \<in> set w"
proof (induction s)
  case Nil
  then show ?case by simp
next
  case (Cons a s)
  obtain w ws where sp: "py_split sep s = w # ws"
    using py_split_nonempty [of sep s] by (cases "py_split sep s") auto
  show ?case
  proof (cases "a = sep")
    case True
    then show ?thesis using Cons by auto
  next
    case False
    show ?thesis
    proof (cases "c = a")
      case True
      then show ?thesis using False by (simp add: sp)
    next
      case False
      then have "\<exists>w\<in>set (py_split sep s). c \<in> set w" using Cons by auto
      then show ?thesis using \<open>a \<noteq> sep\<close> by (auto simp: sp)
    qed
  qed
qed

section \<open>The malformed rule of the sanitizer\<close>

text \<open>
  C9, as the claim states it, fails: \<^verbatim>\<open>int\<close> accepts a signed numeral, so the token
  \<^verbatim>\<open>-5\<close>, which is not a non-negative integer, does not make the path malformed. The
  field \<^verbatim>\<open>100 -5\<close> parses to the path 100, -5.
\<close>

theorem malformed_counterexample:
  "\<not> ((parse_as_path ''100 -5'' = None)
      = (\<exists>tok\<in>set (py_split CHR '' '' ''100 -5''). \<not> nonneg_int_token tok))"
  by (simp add: parse_as_path_def nonneg_int_token_def py_int_def int_strip_def is_int_space_def
      int_max_str_digits_def py_numeral_def is_digit_def digit_val_def)

text \<open>
  C9, amended. The field is split at every single space and each token goes through
  \<^verbatim>\<open>int\<close>; the path is malformed if and only if \<^verbatim>\<open>int\<close> raises on some token. So a
  path whose tokens are all non-empty strings of at most 4300 digits is never malformed,
  and a path with a brace in it always is.
\<close>

theorem malformed_iff:
  "((parse_as_path as_path = None) = (\<exists>tok\<in>set (py_split CHR '' '' as_path). py_int tok = None))
   \<and> ((\<forall>tok\<in>set (py_split CHR '' '' as_path). short_digit_string tok)
        \<longrightarrow> parse_as_path as_path \<noteq> None)
   \<and> (CHR ''{'' \<in> set as_path \<longrightarrow> parse_as_path as_path = None)"
proof (intro conjI impI)
  show iff: "(parse_as_path as_path = None) = (\<exists>tok\<in>set (py_split CHR '' '' as_path). py_int tok = None)"
    by (simp add: parse_as_path_alt those_map_None)
  show "parse_as_path as_path \<noteq> None" if "\<forall>tok\<in>set (py_split CHR '' '' as_path). short_digit_string tok"
    using that by (auto simp: iff dest: py_int_digit_string)
  show "parse_as_path as_path = None" if "CHR ''{'' \<in> set as_path"
  proof -
    from py_split_member [OF that, of "CHR '' ''"] obtain w
      where w: "w \<in> set (py_split CHR '' '' as_path)" "CHR ''{'' \<in> set w" by auto
    have "py_int w = None"
    proof (rule ccontr)
      assume "py_int w \<noteq> None"
      then obtain n where "py_int w = Some n" by auto
      then have "int_char CHR ''{''" using w(2) by (auto dest!: py_int_chars simp: list_all_iff)
      then show False by (simp add: int_char_def is_int_space_def is_digit_def)
    qed
    then show ?thesis using w(1) by (auto simp: iff)
  qed
qed

theorem malformed_iff_witness:
  "parse_as_path ''100 200'' \<noteq> None
   \<and> CHR ''{'' \<in> set ''100 {200,201} 300'' \<and> parse_as_path ''100 {200,201} 300'' = None"
proof -
  have "\<forall>tok\<in>set (py_split CHR '' '' ''100 200''). short_digit_string tok"
    by (simp add: short_digit_string_def int_max_str_digits_def digit_string_def is_digit_def)
  then have "parse_as_path ''100 200'' \<noteq> None"
    using malformed_iff [of "''100 200''"] by blast
  moreover have b: "CHR ''{'' \<in> set ''100 {200,201} 300''" by simp
  moreover have "parse_as_path ''100 {200,201} 300'' = None"
    using malformed_iff [of "''100 {200,201} 300''"] b by blast
  ultimately show ?thesis by blast
qed

subsection \<open>Auxiliary facts on the update loop\<close>


lemma entry_withdraw:
  "entry (fst (withdraw_entry rc peer_ip pfx s)) p x =
     (if p = peer_ip \<and> x = pfx then None else entry (fst s) p x)"
  by (auto simp: withdraw_entry_def entry_def update_conv' delete_conv' split: option.splits)

lemma entry_announce:
  "map_of (fst s) peer_ip = Some m \<Longrightarrow>
   entry (fst (announce_entry rc peer_ip pfx path m s)) p x =
     (if p = peer_ip \<and> x = pfx then Some path else entry (fst s) p x)"
  by (auto simp: announce_entry_def entry_def update_conv' split: option.splits)

lemma entry_set_entry:
  "entry (set_entry rib peer_ip pfx path) p x =
     (if p = peer_ip \<and> x = pfx then Some path else entry rib p x)"
  by (auto simp: set_entry_def entry_def update_conv' split: option.splits)

lemma withdraw_entry_table:
  "ts_start (snd (withdraw_entry rc peer_ip pfx s)) = ts_start (snd s)"
  "ts_end (snd (withdraw_entry rc peer_ip pfx s)) = ts_end (snd s)"
  "peer_ip_filter (snd (withdraw_entry rc peer_ip pfx s)) = peer_ip_filter (snd s)"
  "stop_updating (snd (withdraw_entry rc peer_ip pfx s)) = stop_updating (snd s)"
  "data (snd (withdraw_entry rc peer_ip pfx s)) = data (snd s)"
  by (simp_all add: withdraw_entry_def split: option.splits)

lemma announce_entry_table:
  "ts_start (snd (announce_entry rc peer_ip pfx path m s)) = ts_start (snd s)"
  "ts_end (snd (announce_entry rc peer_ip pfx path m s)) = ts_end (snd s)"
  "peer_ip_filter (snd (announce_entry rc peer_ip pfx path m s)) = peer_ip_filter (snd s)"
  "stop_updating (snd (announce_entry rc peer_ip pfx path m s)) = stop_updating (snd s)"
  "data (snd (announce_entry rc peer_ip pfx path m s)) = data (snd s)"
  by (simp_all add: announce_entry_def)

lemma update_line_alt:
  "update_line utc rc line s =
     (case line_ts utc line of
        None \<Rightarrow> (if length (upd_fields line) < 2 then Raise IndexError else Raise ValueError)
      | Some ts \<Rightarrow>
          if ts < ts_start (snd s) then Continue s
          else if ts > ts_end (snd s) + 1000000 then Return (fst s, set_stop rc (snd s))
          else apply_update rc (upd_fields line) s)"
  by (simp add: update_line_def line_ts_def upd_fields_def Let_def set_stop_def
      split: option.splits)

lemma update_line_early:
  "too_early utc (snd s) line \<Longrightarrow> update_line utc rc line s = Continue s"
  by (simp add: update_line_alt too_early_def split: option.splits)

lemma update_line_late:
  "stops utc (snd s) line \<Longrightarrow> update_line utc rc line s = Return (fst s, set_stop rc (snd s))"
  by (simp add: update_line_alt stops_def too_late_def too_early_def split: option.splits)

lemma stops_too_late:
  "ts_start t \<le> ts_end t + 1000000 \<Longrightarrow> stops utc t line = too_late utc t line"
  by (auto simp: stops_def too_late_def too_early_def split: option.splits)

lemma update_line_inside:
  "\<not> too_early utc (snd s) line \<Longrightarrow> \<not> too_late utc (snd s) line \<Longrightarrow>
   line_ts utc line = Some ts \<Longrightarrow>
   update_line utc rc line s = apply_update rc (upd_fields line) s"
  by (simp add: update_line_alt too_late_def too_early_def)

lemma apply_update_Continue:
  assumes "apply_update rc u s = Continue s'"
  shows "s' = s \<or> s' = withdraw_entry rc (u ! 3) (u ! 5) s
         \<or> (\<exists>path m. map_of (fst s) (u ! 3) = Some m
               \<and> s' = announce_entry rc (u ! 3) (u ! 5) path m s)"
proof (cases "length u = 15 \<and> u ! 2 = ''A''")
  case False
  then show ?thesis using assms
    by (simp add: apply_update_def Let_def split: if_splits)
next
  case True
  show ?thesis
  proof (cases "py_int (u ! 4)")
    case None
    then show ?thesis using assms True
      by (simp add: apply_update_def Let_def split: if_splits)
  next
    case asn: (Some peer_asn)
    show ?thesis
    proof (cases "map_of (fst s) (u ! 3)")
      case None
      then show ?thesis using assms True asn
        by (simp add: apply_update_def Let_def split: if_splits)
    next
      case m: (Some m)
      show ?thesis
      proof (cases "parse_as_path (u ! 6)")
        case None
        then show ?thesis using assms True asn m
          by (simp add: apply_update_def Let_def split: if_splits)
      next
        case (Some path)
        then show ?thesis using assms True asn m
          by (simp add: apply_update_def Let_def split: if_splits) blast
      qed
    qed
  qed
qed

lemma apply_update_not_Return: "apply_update rc u s \<noteq> Return s'"
  by (simp add: apply_update_def Let_def split: option.splits)

lemma update_line_not_late:
  "\<not> stops utc (snd s) line \<Longrightarrow> update_line utc rc line s \<noteq> Return s'"
  by (simp add: update_line_alt stops_def too_late_def too_early_def apply_update_not_Return
      split: option.splits)

lemma update_line_Return:
  "update_line utc rc line s = Return s' \<Longrightarrow> s' = (fst s, set_stop rc (snd s))"
  by (simp add: update_line_alt apply_update_not_Return split: option.splits if_splits)

lemma update_line_Continue_cases:
  assumes "update_line utc rc line s = Continue s'"
  shows "s' = s \<or> s' = withdraw_entry rc (upd_fields line ! 3) (upd_fields line ! 5) s
         \<or> (\<exists>path m. map_of (fst s) (upd_fields line ! 3) = Some m
               \<and> s' = announce_entry rc (upd_fields line ! 3) (upd_fields line ! 5) path m s)"
proof -
  have "s' = s \<or> apply_update rc (upd_fields line) s = Continue s'"
    using assms by (simp add: update_line_alt split: option.splits if_splits)
  then show ?thesis
    using apply_update_Continue [of rc "upd_fields line" s s'] by blast
qed

lemma update_line_Continue_table:
  assumes "update_line utc rc line s = Continue s'"
  shows "ts_start (snd s') = ts_start (snd s)" "ts_end (snd s') = ts_end (snd s)"
    "peer_ip_filter (snd s') = peer_ip_filter (snd s)" "stop_updating (snd s') = stop_updating (snd s)"
    "data (snd s') = data (snd s)"
  using update_line_Continue_cases [OF assms]
  by (auto simp: withdraw_entry_table announce_entry_table)


lemma set_stop_table:
  "ts_start (set_stop rc t) = ts_start t" "ts_end (set_stop rc t) = ts_end t"
  "peer_ip_filter (set_stop rc t) = peer_ip_filter t" "data (set_stop rc t) = data t"
  "observers (set_stop rc t) = observers t"
  by (simp_all add: set_stop_def)

lemma too_early_cong: "ts_start t' = ts_start t \<Longrightarrow> too_early utc t' = too_early utc t"
  by (simp add: too_early_def fun_eq_iff split: option.splits)

lemma too_late_cong: "ts_end t' = ts_end t \<Longrightarrow> too_late utc t' = too_late utc t"
  by (simp add: too_late_def fun_eq_iff split: option.splits)

lemma stops_cong:
  "ts_start t' = ts_start t \<Longrightarrow> ts_end t' = ts_end t \<Longrightarrow> stops utc t' = stops utc t"
  using too_early_cong [of t' t utc] too_late_cong [of t' t utc]
  by (simp add: stops_def fun_eq_iff)

lemma in_window_Nil: "in_window utc t [] = []"
  by (simp add: in_window_def)

lemma in_window_Cons:
  "in_window utc t (l # lines) =
     (if stops utc t l then []
      else if too_early utc t l then in_window utc t lines
      else l # in_window utc t lines)"
  by (auto simp: in_window_def stops_def)

lemma in_window_cong:
  "ts_start t' = ts_start t \<Longrightarrow> ts_end t' = ts_end t \<Longrightarrow> in_window utc t' = in_window utc t"
  using too_early_cong [of t' t utc] too_late_cong [of t' t utc] stops_cong [of t' t utc]
  by (simp add: in_window_def fun_eq_iff)

lemma in_window_inside:
  "list_all (\<lambda>l. \<not> too_early utc t l \<and> \<not> too_late utc t l) (in_window utc t lines)"
  by (simp add: in_window_def list_all_iff)

lemma update_lines_window:
  "update_lines utc rc lines s =
     finish rc (list_ex (stops utc (snd s)) lines)
       (update_lines utc rc (in_window utc (snd s) lines) s)"
proof (induction lines arbitrary: s)
  case Nil
  then show ?case by (simp add: in_window_Nil finish_def)
next
  case (Cons l lines)
  show ?case
  proof (cases "stops utc (snd s) l")
    case True
    then show ?thesis
      by (simp add: update_line_late in_window_Cons finish_def)
  next
    case late: False
    show ?thesis
    proof (cases "too_early utc (snd s) l")
      case True
      then show ?thesis using Cons.IH [of s] late
        by (simp add: update_line_early in_window_Cons)
    next
      case False
      show ?thesis
      proof (cases "update_line utc rc l s")
        case (Continue s')
        note tbl = update_line_Continue_table [OF Continue]
        have late': "stops utc (snd s') = stops utc (snd s)"
          by (rule stops_cong) (rule tbl(1), rule tbl(2))
        have win': "in_window utc (snd s') = in_window utc (snd s)"
          by (rule in_window_cong) (rule tbl(1), rule tbl(2))
        show ?thesis using Cons.IH [of s'] Continue late False
          by (simp add: in_window_Cons late' win')
      next
        case (Return s')
        then show ?thesis using late update_line_not_late [of utc s l rc s'] by simp
      next
        case (Raise e)
        then show ?thesis using late False by (simp add: in_window_Cons finish_def)
      qed
    qed
  qed
qed


lemma update_rib_from_url_window:
  "update_rib_from_url utc url rc t =
     finish_table rc (list_ex (stops utc t) url)
       (update_rib_from_url utc (in_window utc t url) rc t)"
proof (cases "map_of (data t) rc")
  case None
  then show ?thesis by (simp add: update_rib_from_url_def finish_table_def)
next
  case (Some rib)
  have w: "update_lines utc rc url (rib, t) =
          finish rc (list_ex (stops utc t) url) (update_lines utc rc (in_window utc t url) (rib, t))"
    using update_lines_window [of utc rc url "(rib, t)"] by simp
  show ?thesis
  proof (cases "update_lines utc rc (in_window utc t url) (rib, t)")
    case (Inl e)
    then show ?thesis using Some w
      by (simp add: update_rib_from_url_def finish_table_def finish_def)
  next
    case (Inr s)
    then show ?thesis using Some w
      by (cases s) (simp add: update_rib_from_url_def finish_table_def finish_def set_stop_def)
  qed
qed


lemma apply_update_failed_announcement:
  assumes "length u = 15" "u ! 2 = ''A''" "py_int (u ! 4) = Some peer_asn"
    and "peer_ip_filter (snd s) = [] \<or> u ! 3 \<in> set (peer_ip_filter (snd s))"
    and "fails_sanitization (u ! 6) peer_asn"
  shows "apply_update rc u s = Continue (withdraw_entry rc (u ! 3) (u ! 5) s)"
proof (cases "map_of (fst s) (u ! 3)")
  case None
  then have "withdraw_entry rc (u ! 3) (u ! 5) s = s" by (simp add: withdraw_entry_def)
  then show ?thesis using assms None
    by (auto simp: apply_update_def Let_def)
next
  case (Some m)
  then show ?thesis using assms
    by (auto simp: apply_update_def Let_def fails_sanitization_def split: option.splits)
qed

lemma update_line_failed_announcement:
  assumes "sanitized_announcement utc t line peer_ip peer_asn pfx as_path"
    and "fails_sanitization as_path peer_asn"
  shows "update_line utc rc line (rib, t) = Continue (withdraw_entry rc peer_ip pfx (rib, t))"
proof -
  obtain ts where ts: "utc (upd_fields line ! 1) = Some ts" "ts_start t \<le> ts" "ts \<le> ts_end t + 1000000"
    using assms(1) by (auto simp: sanitized_announcement_def split: option.splits)
  have len: "length (upd_fields line) = 15" using assms(1) by (simp add: sanitized_announcement_def)
  then have lts: "line_ts utc line = Some ts" using ts by (simp add: line_ts_def)
  have "update_line utc rc line (rib, t) = apply_update rc (upd_fields line) (rib, t)"
    using lts ts by (simp add: update_line_alt)
  also have "\<dots> = Continue (withdraw_entry rc (upd_fields line ! 3) (upd_fields line ! 5) (rib, t))"
    using assms by (intro apply_update_failed_announcement) (auto simp: sanitized_announcement_def)
  finally show ?thesis using assms(1) by (simp add: sanitized_announcement_def)
qed

lemma withdraw_entry_present:
  assumes "entry rib peer_ip pfx = Some old"
  shows "\<exists>m. map_of rib peer_ip = Some m \<and> withdraw_entry rc peer_ip pfx (rib, t) =
     (AList.update peer_ip (AList.delete pfx m) rib,
      t\<lparr>observers := notify_pfx pfx (\<lambda>fam. Withdrawal fam rc peer_ip pfx old) (observers t)\<rparr>)"
  using assms by (auto simp: entry_def withdraw_entry_def split: option.splits)

lemma withdraw_entry_absent:
  "entry rib peer_ip pfx = None \<Longrightarrow> withdraw_entry rc peer_ip pfx (rib, t) = (rib, t)"
  by (auto simp: entry_def withdraw_entry_def split: option.splits)

lemma in_window_append_late:
  "stops utc t l \<Longrightarrow> in_window utc t (pre @ l # post) = in_window utc t pre"
  by (induction pre) (simp_all add: in_window_Cons in_window_Nil)

lemma update_lines_stop_kept:
  "update_lines utc rc lines s = Inr s' \<Longrightarrow> map_of (stop_updating (snd s)) rc' = Some True \<Longrightarrow>
   map_of (stop_updating (snd s')) rc' = Some True"
proof (induction lines arbitrary: s)
  case Nil
  then show ?case by simp
next
  case (Cons l lines)
  show ?case
  proof (cases "update_line utc rc l s")
    case (Continue s1)
    then show ?thesis using Cons update_line_Continue_table(4) [OF Continue] by simp
  next
    case (Return s1)
    then show ?thesis using Cons.prems update_line_Return [OF Return]
      by (auto simp: set_stop_def update_conv')
  next
    case (Raise e)
    then show ?thesis using Cons.prems by simp
  qed
qed

lemma update_lines_table:
  "update_lines utc rc lines s = Inr s' \<Longrightarrow>
   ts_start (snd s') = ts_start (snd s) \<and> ts_end (snd s') = ts_end (snd s)
   \<and> peer_ip_filter (snd s') = peer_ip_filter (snd s) \<and> data (snd s') = data (snd s)"
proof (induction lines arbitrary: s)
  case Nil
  then show ?case by simp
next
  case (Cons l lines)
  show ?case
  proof (cases "update_line utc rc l s")
    case (Continue s1)
    then show ?thesis using Cons update_line_Continue_table [OF Continue] by simp
  next
    case (Return s1)
    then show ?thesis using Cons.prems update_line_Return [OF Return]
      by (auto simp: set_stop_def)
  next
    case (Raise e)
    then show ?thesis using Cons.prems by simp
  qed
qed

lemma update_rib_from_url_stop_kept:
  assumes "update_rib_from_url utc url rc t = Inr t'" and "map_of (stop_updating t) rc' = Some True"
  shows "map_of (stop_updating t') rc' = Some True"
proof -
  from assms(1) obtain rib rib' t1 where
    "update_lines utc rc url (rib, t) = Inr (rib', t1)" and "t' = t1\<lparr>data := AList.update rc rib' (data t1)\<rparr>"
    by (auto simp: update_rib_from_url_def split: option.splits sum.splits)
  then show ?thesis using update_lines_stop_kept [of utc rc url "(rib, t)" "(rib', t1)" rc'] assms(2)
    by simp
qed

lemma update_stop_kept:
  "update utc m t = Inr t' \<Longrightarrow> map_of (stop_updating t) rc' = Some True \<Longrightarrow>
   map_of (stop_updating t') rc' = Some True"
proof (induction m arbitrary: t)
  case Nil
  then show ?case by simp
next
  case (Cons a m)
  obtain rc url where a: "a = (rc, url)" by (cases a)
  from Cons.prems(1) obtain t1 where
    t1: "update_rib_from_url utc url rc t = Inr t1" and rest: "update utc m t1 = Inr t'"
    by (auto simp: a split: sum.splits)
  show ?case
    using Cons.IH [OF rest] update_rib_from_url_stop_kept [OF t1 Cons.prems(2)] by simp
qed

lemma in_window_outside:
  assumes "list_all (\<lambda>l. too_early utc t l \<or> too_late utc t l) lines"
  shows "in_window utc t lines = []"
proof -
  have "\<not> (\<not> too_early utc t l \<and> \<not> too_late utc t l)"
    if "l \<in> set (takeWhile (\<lambda>l. \<not> stops utc t l) lines)" for l
    using that assms by (auto simp: list_all_iff dest: set_takeWhileD)
  then show ?thesis unfolding in_window_def filter_empty_conv by blast
qed

lemma update_rib_from_url_outside:
  assumes "list_all (\<lambda>l. too_early utc t l \<or> too_late utc t l) url"
    and "update_rib_from_url utc url rc t = Inr t'"
  shows "data t' = data t \<and> observers t' = observers t"
proof -
  have "update_rib_from_url utc url rc t =
          finish_table rc (list_ex (stops utc t) url) (update_rib_from_url utc [] rc t)"
    using update_rib_from_url_window [of utc url rc t] in_window_outside [OF assms(1)]
    by simp
  then show ?thesis using assms(2)
    by (auto simp: update_rib_from_url_def finish_table_def set_stop_def update_triv
        split: option.splits if_splits)
qed

lemma update_rib_from_url_rest_unread:
  assumes "stops utc t l"
  shows "update_rib_from_url utc (pre @ l # post) rc t = update_rib_from_url utc (pre @ [l]) rc t"
proof -
  have "list_ex (stops utc t) (pre @ l # post)" "list_ex (stops utc t) (pre @ [l])"
    using assms by (simp_all add: list_ex_iff)
  then show ?thesis
    using update_rib_from_url_window [of utc "pre @ l # post" rc t]
      update_rib_from_url_window [of utc "pre @ [l]" rc t]
      in_window_append_late [OF assms, of pre post] in_window_append_late [OF assms, of pre "[]"]
    by simp
qed

lemma update_rib_from_url_flag_set:
  assumes "list_ex (stops utc t) url" and "update_rib_from_url utc url rc t = Inr t'"
  shows "map_of (stop_updating t') rc = Some True"
proof -
  have "finish_table rc True (update_rib_from_url utc (in_window utc t url) rc t) = Inr t'"
    using update_rib_from_url_window [of utc url rc t] assms by simp
  then show ?thesis
    by (auto simp: finish_table_def set_stop_def update_conv' split: sum.splits)
qed


subsection \<open>Auxiliary facts: the flags are not read\<close>

lemma withdraw_entry_flags:
  "withdraw_entry rc peer_ip pfx (rib, with_flags f t)
     = apsnd (with_flags f) (withdraw_entry rc peer_ip pfx (rib, t))"
  by (simp add: withdraw_entry_def with_flags_def split: option.splits)

lemma announce_entry_flags:
  "announce_entry rc peer_ip pfx path m (rib, with_flags f t)
     = apsnd (with_flags f) (announce_entry rc peer_ip pfx path m (rib, t))"
  by (simp add: announce_entry_def with_flags_def)

lemma apply_update_flags:
  "apply_update rc u (rib, with_flags f t) = map_step (apsnd (with_flags f)) (apply_update rc u (rib, t))"
proof -
  have flt: "peer_ip_filter (with_flags f t) = peer_ip_filter t" by (simp add: with_flags_def)
  show ?thesis
    unfolding apply_update_def Let_def withdraw_entry_flags announce_entry_flags
    by (simp add: flt split: option.splits)
qed

lemma update_line_flags:
  "update_line utc rc line (rib, with_flags f t) =
     (case update_line utc rc line (rib, t) of
        Continue s' \<Rightarrow> Continue (apsnd (with_flags f) s')
      | Return s' \<Rightarrow> Return (apsnd (with_flags (AList.update rc True f)) s')
      | Raise e \<Rightarrow> Raise e)"
proof (cases "line_ts utc line")
  case None
  then show ?thesis by (simp add: update_line_alt)
next
  case (Some ts)
  have w: "ts_start (with_flags f t) = ts_start t" "ts_end (with_flags f t) = ts_end t"
    by (simp_all add: with_flags_def)
  show ?thesis
  proof (cases "ts < ts_start t")
    case True
    then show ?thesis using Some by (simp add: update_line_alt w)
  next
    case early: False
    show ?thesis
    proof (cases "ts > ts_end t + 1000000")
      case True
      then show ?thesis using Some early
        by (simp add: update_line_alt w set_stop_def with_flags_def)
    next
      case False
      then have "update_line utc rc line (rib, with_flags f t)
                   = map_step (apsnd (with_flags f)) (update_line utc rc line (rib, t))"
        using Some early by (simp add: update_line_alt w apply_update_flags)
      moreover have "\<forall>s'. update_line utc rc line (rib, t) \<noteq> Return s'"
        using Some early False by (simp add: update_line_alt apply_update_not_Return)
      ultimately show ?thesis
        by (cases "update_line utc rc line (rib, t)") auto
    qed
  qed
qed

lemma with_flags_twice: "with_flags g (with_flags f t) = with_flags g t"
  by (simp add: with_flags_def)

lemma update_lines_flags:
  "map_sum id (apsnd (with_flags [])) (update_lines utc rc lines (rib, with_flags f t))
     = map_sum id (apsnd (with_flags [])) (update_lines utc rc lines (rib, t))"
proof (induction lines arbitrary: rib t)
  case Nil
  then show ?case by (simp add: with_flags_def)
next
  case (Cons l lines)
  show ?case
  proof (cases "update_line utc rc l (rib, t)")
    case (Continue s')
    obtain rib' t' where s': "s' = (rib', t')" by (cases s')
    show ?thesis using Cons.IH [of rib' t'] Continue
      by (simp add: update_line_flags s')
  next
    case (Return s')
    then show ?thesis by (cases s') (simp add: update_line_flags with_flags_twice)
  next
    case (Raise e)
    then show ?thesis by (simp add: update_line_flags)
  qed
qed

lemma with_flags_eq: "with_flags [] t1 = with_flags [] t2 \<Longrightarrow> t1 = with_flags (stop_updating t1) t2"
  by (cases t1; cases t2) (simp add: with_flags_def)

lemma with_flags_data:
  "with_flags g (with_flags f t\<lparr>data := upd (data (with_flags f t))\<rparr>) = with_flags g (t\<lparr>data := upd (data t)\<rparr>)"
  by (simp add: with_flags_def)

lemma update_rib_from_url_flags:
  "map_sum id (with_flags []) (update_rib_from_url utc url rc (with_flags f t))
     = map_sum id (with_flags []) (update_rib_from_url utc url rc t)"
proof (cases "map_of (data t) rc")
  case None
  then show ?thesis by (simp add: update_rib_from_url_def with_flags_def)
next
  case (Some rib)
  have d: "data (with_flags f t) = data t" by (simp add: with_flags_def)
  show ?thesis
  proof (cases "update_lines utc rc url (rib, t)")
    case (Inl e)
    then have "update_lines utc rc url (rib, with_flags f t) = Inl e"
      using update_lines_flags [of utc rc url rib f t]
      by (cases "update_lines utc rc url (rib, with_flags f t)") simp_all
    then show ?thesis using Inl Some by (simp add: update_rib_from_url_def d)
  next
    case (Inr s)
    obtain r t1 where s: "s = (r, t1)" by (cases s)
    obtain t1' where r': "update_lines utc rc url (rib, with_flags f t) = Inr (r, t1')"
      and eq: "with_flags [] t1' = with_flags [] t1"
      using update_lines_flags [of utc rc url rib f t] Inr s
      by (cases "update_lines utc rc url (rib, with_flags f t)") auto
    have "t1' = with_flags (stop_updating t1') t1" using eq by (rule with_flags_eq)
    then have "with_flags [] (t1'\<lparr>data := AList.update rc r (data t1')\<rparr>)
                 = with_flags [] (t1\<lparr>data := AList.update rc r (data t1)\<rparr>)"
      using with_flags_data [where g = "[]" and f = "stop_updating t1'" and t = t1
          and upd = "AList.update rc r"]
      by simp
    then show ?thesis using Inr s r' Some by (simp add: update_rib_from_url_def d)
  qed
qed

lemma update_flags:
  "map_sum id (with_flags []) (update utc m (with_flags f t))
     = map_sum id (with_flags []) (update utc m t)"
proof (induction m arbitrary: f t)
  case Nil
  then show ?case by (simp add: with_flags_def)
next
  case (Cons a m)
  obtain rc url where a: "a = (rc, url)" by (cases a)
  show ?case
  proof (cases "update_rib_from_url utc url rc t")
    case (Inl e)
    then have "update_rib_from_url utc url rc (with_flags f t) = Inl e"
      using update_rib_from_url_flags [of utc url rc f t]
      by (cases "update_rib_from_url utc url rc (with_flags f t)") simp_all
    then show ?thesis using Inl by (simp add: a)
  next
    case (Inr t1)
    then obtain t1' where t1': "update_rib_from_url utc url rc (with_flags f t) = Inr t1'"
      and eq: "with_flags [] t1' = with_flags [] t1"
      using update_rib_from_url_flags [of utc url rc f t]
      by (cases "update_rib_from_url utc url rc (with_flags f t)") simp_all
    have "t1' = with_flags (stop_updating t1') t1" using eq by (rule with_flags_eq)
    then show ?thesis using Cons.IH [of "stop_updating t1'" t1] Inr t1'
      by (simp add: a)
  qed
qed

lemma outcome_flags: "outcome (map_sum id (with_flags f) r) = outcome r"
  by (cases r) (simp_all add: outcome_def with_flags_def)

lemma update_outcome_flags:
  "outcome (update utc m (with_flags f t)) = outcome (update utc m t)"
  using update_flags [of utc m f t]
    outcome_flags [of "[]" "update utc m (with_flags f t)"] outcome_flags [of "[]" "update utc m t"]
  by simp


subsection \<open>Auxiliary facts: a withdrawal inside the window\<close>

lemma update_withdrawal:
  assumes "window_withdrawal utc t line peer_ip pfx"
    and "stored (data t) rc peer_ip pfx = Some old"
  shows "\<exists>t'. update utc [(rc, [line])] t = Inr t'
            \<and> stored (data t') rc peer_ip pfx = None
            \<and> observers t' = notify_pfx pfx (\<lambda>fam. Withdrawal fam rc peer_ip pfx old) (observers t)
            \<and> stop_updating t' = stop_updating t"
proof -
  obtain rib where rib: "map_of (data t) rc = Some rib" and e: "entry rib peer_ip pfx = Some old"
    using assms(2) by (auto simp: stored_def split: option.splits)
  obtain ts where ts: "utc (upd_fields line ! 1) = Some ts" "ts_start t \<le> ts" "ts \<le> ts_end t + 1000000"
    using assms(1) by (auto simp: window_withdrawal_def split: option.splits)
  have u: "length (upd_fields line) = 6" "upd_fields line ! 2 = ''W''"
    "upd_fields line ! 3 = peer_ip" "upd_fields line ! 5 = pfx"
    "peer_ip_filter t = [] \<or> peer_ip \<in> set (peer_ip_filter t)"
    using assms(1) by (simp_all add: window_withdrawal_def)
  have lts: "line_ts utc line = Some ts" using ts u(1) by (simp add: line_ts_def)
  have "update_line utc rc line (rib, t) = apply_update rc (upd_fields line) (rib, t)"
    using lts ts by (simp add: update_line_alt)
  also have "\<dots> = Continue (withdraw_entry rc peer_ip pfx (rib, t))"
    using u by (auto simp: apply_update_def Let_def)
  finally have l: "update_line utc rc line (rib, t) = Continue (withdraw_entry rc peer_ip pfx (rib, t))" .
  from withdraw_entry_present [OF e, of rc t] obtain m where
    m: "map_of rib peer_ip = Some m"
    and w: "withdraw_entry rc peer_ip pfx (rib, t) =
       (AList.update peer_ip (AList.delete pfx m) rib,
        t\<lparr>observers := notify_pfx pfx (\<lambda>fam. Withdrawal fam rc peer_ip pfx old) (observers t)\<rparr>)"
    by blast
  have "update utc [(rc, [line])] t =
          Inr (t\<lparr>observers := notify_pfx pfx (\<lambda>fam. Withdrawal fam rc peer_ip pfx old) (observers t),
                 data := AList.update rc (AList.update peer_ip (AList.delete pfx m) rib) (data t)\<rparr>)"
    using rib l w by (simp add: update_rib_from_url_def)
  moreover have "stored (AList.update rc (AList.update peer_ip (AList.delete pfx m) rib) (data t))
                   rc peer_ip pfx = None"
    by (simp add: stored_def entry_def update_conv' delete_conv')
  ultimately show ?thesis by simp
qed

text \<open>The definitions that evaluate the examples.\<close>

lemmas ex_defs = example_table_def early_line_def late_line_def withdrawal_line_def malformed_line_def
  utc_seconds_def digit_string_def dec_value_def py_int_def int_strip_def is_int_space_def int_max_str_digits_def py_strip_def py_rstrip_def
      py_numeral_def is_space_def is_digit_def
  digit_val_def upd_fields_def line_ts_def too_early_def too_late_def example_rib_def
  odd_rib_def odd_line_def stops_def inverted_table_def between_line_def

section \<open>Windowing\<close>

text \<open>
  C4, as the claim states it, fails when \<open>ts_start\<close> is more than one second after
  \<open>ts_end\<close>, which neither \<^verbatim>\<open>RIBTable\<close> nor the driver excludes: the test for a record
  that is too early comes first, so a record later than \<open>ts_end\<close> + 1 s and earlier than
  \<open>ts_start\<close> is skipped. It does not set \<open>stop_updating[rc]\<close> and the reading of the
  file goes on. With the window from 300 s to 200 s, the record of 250 s is the first
  one later than \<open>ts_end\<close> + 1 s; the file that holds it leaves the flag false, and the
  file with a second record, whose time stamp is not a number, raises at that record.
\<close>

theorem windowing_counterexample:
  "too_late utc_seconds inverted_table between_line
   \<and> update_line utc_seconds ''rrc00'' between_line (example_rib, inverted_table)
       = Continue (example_rib, inverted_table)
   \<and> update_rib_from_url utc_seconds [between_line] ''rrc00'' inverted_table = Inr inverted_table
   \<and> map_of (stop_updating inverted_table) ''rrc00'' = Some False
   \<and> update_rib_from_url utc_seconds [between_line, ''BGP4MP|x''] ''rrc00'' inverted_table
       = Inl ValueError"
  by (simp add: update_rib_from_url_def update_line_def ex_defs)

text \<open>
  C4, amended. A record whose time stamp is before \<open>ts_start\<close> is skipped, the state
  unchanged. A record whose time stamp is after \<open>ts_end\<close> + 1 s and not before \<open>ts_start\<close>
  stops the reading: it sets \<open>stop_updating[rc]\<close> and ends the processing of the file,
  nothing else changed. When \<open>ts_start\<close> is at most \<open>ts_end\<close> + 1 s, the records that stop
  the reading are all the records after \<open>ts_end\<close> + 1 s. A record that is neither too
  early nor too late goes through the rest of the loop body. The result of a whole file
  is the result of its records inside the window that come before the first record that
  stops the reading, with the flag set when there is such a record; each of these
  records has a time stamp from \<open>ts_start\<close> to \<open>ts_end\<close> + 1 s, so that no record outside
  the window is reflected in the RIB or in any observer.
\<close>

theorem windowing:
  "(too_early utc t line \<longrightarrow> update_line utc rc line (rib, t) = Continue (rib, t))
   \<and> (stops utc t line \<longrightarrow> update_line utc rc line (rib, t) = Return (rib, set_stop rc t))
   \<and> (ts_start t \<le> ts_end t + 1000000 \<longrightarrow> stops utc t line = too_late utc t line)
   \<and> (line_ts utc line \<noteq> None \<and> \<not> too_early utc t line \<and> \<not> too_late utc t line \<longrightarrow>
        update_line utc rc line (rib, t) = apply_update rc (upd_fields line) (rib, t))
   \<and> update_rib_from_url utc url rc t =
       finish_table rc (list_ex (stops utc t) url)
         (update_rib_from_url utc (in_window utc t url) rc t)
   \<and> list_all (\<lambda>l. \<not> too_early utc t l \<and> \<not> too_late utc t l) (in_window utc t url)"
proof (intro conjI impI)
  show "update_line utc rc line (rib, t) = Continue (rib, t)" if "too_early utc t line"
    using that update_line_early [of utc "(rib, t)" line rc] by simp
  show "update_line utc rc line (rib, t) = Return (rib, set_stop rc t)" if "stops utc t line"
    using that update_line_late [of utc "(rib, t)" line rc] by simp
  show "stops utc t line = too_late utc t line" if "ts_start t \<le> ts_end t + 1000000"
    using that by (rule stops_too_late)
  show "update_line utc rc line (rib, t) = apply_update rc (upd_fields line) (rib, t)"
    if "line_ts utc line \<noteq> None \<and> \<not> too_early utc t line \<and> \<not> too_late utc t line"
    using that update_line_inside [of utc "(rib, t)" line _ rc] by auto
  show "update_rib_from_url utc url rc t =
       finish_table rc (list_ex (stops utc t) url)
         (update_rib_from_url utc (in_window utc t url) rc t)"
    by (rule update_rib_from_url_window)
  show "list_all (\<lambda>l. \<not> too_early utc t l \<and> \<not> too_late utc t l) (in_window utc t url)"
    by (rule in_window_inside)
qed

theorem windowing_witness:
  "too_early utc_seconds example_table early_line
   \<and> update_line utc_seconds ''rrc00'' early_line (example_rib, example_table)
       = Continue (example_rib, example_table)
   \<and> stops utc_seconds example_table late_line
   \<and> update_line utc_seconds ''rrc00'' late_line (example_rib, example_table)
       = Return (example_rib, set_stop ''rrc00'' example_table)
   \<and> ts_start example_table \<le> ts_end example_table + 1000000
   \<and> stops utc_seconds example_table late_line = too_late utc_seconds example_table late_line
   \<and> line_ts utc_seconds withdrawal_line \<noteq> None
   \<and> \<not> too_early utc_seconds example_table withdrawal_line
   \<and> \<not> too_late utc_seconds example_table withdrawal_line
   \<and> update_line utc_seconds ''rrc00'' withdrawal_line (example_rib, example_table)
       = apply_update ''rrc00'' (upd_fields withdrawal_line) (example_rib, example_table)
   \<and> in_window utc_seconds example_table [early_line, withdrawal_line, late_line, withdrawal_line]
       = [withdrawal_line]
   \<and> list_all (\<lambda>l. \<not> too_early utc_seconds example_table l \<and> \<not> too_late utc_seconds example_table l)
        (in_window utc_seconds example_table [early_line, withdrawal_line, late_line, withdrawal_line])"
proof -
  have w: "ts_start example_table \<le> ts_end example_table + 1000000" by (simp add: example_table_def)
  have e: "too_early utc_seconds example_table early_line" by (simp add: ex_defs)
  have l: "stops utc_seconds example_table late_line" by (simp add: ex_defs)
  have i: "line_ts utc_seconds withdrawal_line \<noteq> None"
    "\<not> too_early utc_seconds example_table withdrawal_line"
    "\<not> too_late utc_seconds example_table withdrawal_line"
    by (simp_all add: ex_defs)
  have n: "\<not> stops utc_seconds example_table early_line"
    "\<not> stops utc_seconds example_table withdrawal_line"
    using e i by (simp_all add: stops_def)
  have f: "in_window utc_seconds example_table [early_line, withdrawal_line, late_line, withdrawal_line]
       = [withdrawal_line]"
    using e l i n by (simp add: in_window_Cons)
  show ?thesis
    using w e l i f
      windowing [of utc_seconds example_table early_line "''rrc00''" example_rib
        "[early_line, withdrawal_line, late_line, withdrawal_line]"]
      windowing [of utc_seconds example_table late_line "''rrc00''" example_rib "[]"]
      windowing [of utc_seconds example_table withdrawal_line "''rrc00''" example_rib "[]"]
    by blast
qed

section \<open>The purge by a malformed announcement\<close>

text \<open>
  C8, as the claim states it, fails for a prefix that holds neither a dot nor a colon:
  the notification is sent under \<^verbatim>\<open>if "." in pfx: ... elif ":" in pfx: ...\<close>, with no
  \<^verbatim>\<open>else\<close>, and the entry is popped after it. The entry for the prefix \<^verbatim>\<open>unnamed\<close> is
  deleted and the observers are left as they were, where one notification would have
  changed them.
\<close>

theorem malformed_announcement_purge_counterexample:
  "sanitized_announcement utc_seconds example_table odd_line ''1.2.3.4'' 100 ''unnamed''
     ''100 {200,201} 300''
   \<and> fails_sanitization ''100 {200,201} 300'' 100
   \<and> entry odd_rib ''1.2.3.4'' ''unnamed'' = Some [100, 200, 300]
   \<and> update_line utc_seconds ''rrc00'' odd_line (odd_rib, example_table)
       = Continue ([(''1.2.3.4'', [])], example_table)
   \<and> notify (Withdrawal IPv4 ''rrc00'' ''1.2.3.4'' ''unnamed'' [100, 200, 300]) (observers example_table)
       \<noteq> observers example_table
   \<and> notify (Withdrawal IPv6 ''rrc00'' ''1.2.3.4'' ''unnamed'' [100, 200, 300]) (observers example_table)
       \<noteq> observers example_table"
proof -
  have a: "sanitized_announcement utc_seconds example_table odd_line ''1.2.3.4'' 100
             ''unnamed'' ''100 {200,201} 300''"
    by (simp add: sanitized_announcement_def odd_line_def ex_defs)
  have b: "fails_sanitization ''100 {200,201} 300'' 100"
    by (simp add: fails_sanitization_def parse_as_path_def ex_defs)
  have c: "entry odd_rib ''1.2.3.4'' ''unnamed'' = Some [100, 200, 300]"
    by (simp add: entry_def odd_rib_def)
  have "update_line utc_seconds ''rrc00'' odd_line (odd_rib, example_table)
       = Continue (withdraw_entry ''rrc00'' ''1.2.3.4'' ''unnamed'' (odd_rib, example_table))"
    by (rule update_line_failed_announcement [OF a b])
  then have "update_line utc_seconds ''rrc00'' odd_line (odd_rib, example_table)
       = Continue ([(''1.2.3.4'', [])], example_table)"
    by (simp add: withdraw_entry_def odd_rib_def notify_pfx_def pfx_family_def)
  moreover have "notify (Withdrawal IPv4 ''rrc00'' ''1.2.3.4'' ''unnamed'' [100, 200, 300])
      (observers example_table) \<noteq> observers example_table"
    by (simp add: notify_def example_table_def PathObserver_remove_path_def get0_def)
  moreover have "notify (Withdrawal IPv6 ''rrc00'' ''1.2.3.4'' ''unnamed'' [100, 200, 300])
      (observers example_table) \<noteq> observers example_table"
    by (simp add: notify_def example_table_def PathObserver_remove_path_def get0_def)
  ultimately show ?thesis using a b c by simp
qed

text \<open>
  C8, amended. Take an announcement that the loop sanitizes (inside the window, its peer
  passing the filter, its peer ASN an integer) and whose AS path fails sanitization.
  When the RIB holds an entry for its peer and prefix and the prefix holds a dot or a
  colon, the store goes on to the next record with the entry deleted, every other
  entry as it was, and exactly one withdrawal of the old path, of the family of the
  prefix, sent to every observer; nothing of the announcement is stored. When there is
  no entry, nothing changes and nothing is sent.
\<close>

theorem malformed_announcement_purge:
  assumes "sanitized_announcement utc t line peer_ip peer_asn pfx as_path"
    and "fails_sanitization as_path peer_asn"
  shows "(entry rib peer_ip pfx = Some old \<and> pfx_family pfx = Some fam \<longrightarrow>
            (\<exists>rib'. update_line utc rc line (rib, t)
                      = Continue (rib', t\<lparr>observers := notify (Withdrawal fam rc peer_ip pfx old) (observers t)\<rparr>)
                  \<and> (\<forall>p x. entry rib' p x = (if p = peer_ip \<and> x = pfx then None else entry rib p x))))
       \<and> (entry rib peer_ip pfx = None \<longrightarrow> update_line utc rc line (rib, t) = Continue (rib, t))"
proof (intro conjI impI)
  note step = update_line_failed_announcement [OF assms, of rc rib]
  show "update_line utc rc line (rib, t) = Continue (rib, t)" if "entry rib peer_ip pfx = None"
    using step that by (simp add: withdraw_entry_absent)
  show "\<exists>rib'. update_line utc rc line (rib, t)
                = Continue (rib', t\<lparr>observers := notify (Withdrawal fam rc peer_ip pfx old) (observers t)\<rparr>)
            \<and> (\<forall>p x. entry rib' p x = (if p = peer_ip \<and> x = pfx then None else entry rib p x))"
    if h: "entry rib peer_ip pfx = Some old \<and> pfx_family pfx = Some fam"
  proof -
    from h withdraw_entry_present [of rib peer_ip pfx old rc t] obtain m where
      m: "withdraw_entry rc peer_ip pfx (rib, t) =
           (AList.update peer_ip (AList.delete pfx m) rib,
            t\<lparr>observers := notify (Withdrawal fam rc peer_ip pfx old) (observers t)\<rparr>)"
      by (auto simp: notify_pfx_def)
    have "\<forall>p x. entry (AList.update peer_ip (AList.delete pfx m) rib) p x
             = (if p = peer_ip \<and> x = pfx then None else entry rib p x)"
      using entry_withdraw [of rc peer_ip pfx "(rib, t)"] m by simp
    then show ?thesis using step m by auto
  qed
qed

theorem malformed_announcement_purge_witness:
  "sanitized_announcement utc_seconds example_table malformed_line ''1.2.3.4'' 100 ''10.0.0.0/24''
     ''100 {200,201} 300''
   \<and> fails_sanitization ''100 {200,201} 300'' 100
   \<and> entry example_rib ''1.2.3.4'' ''10.0.0.0/24'' = Some [100, 200, 300]
   \<and> pfx_family ''10.0.0.0/24'' = Some IPv4
   \<and> update_line utc_seconds ''rrc00'' malformed_line (example_rib, example_table)
       = Continue ([(''1.2.3.4'', [])],
           example_table\<lparr>observers :=
             notify (Withdrawal IPv4 ''rrc00'' ''1.2.3.4'' ''10.0.0.0/24'' [100, 200, 300])
               (observers example_table)\<rparr>)"
proof -
  have a: "sanitized_announcement utc_seconds example_table malformed_line ''1.2.3.4'' 100
             ''10.0.0.0/24'' ''100 {200,201} 300''"
    by (simp add: sanitized_announcement_def ex_defs)
  have b: "fails_sanitization ''100 {200,201} 300'' 100"
    by (simp add: fails_sanitization_def parse_as_path_def ex_defs)
  have c: "entry example_rib ''1.2.3.4'' ''10.0.0.0/24'' = Some [100, 200, 300]"
    by (simp add: entry_def example_rib_def)
  have d: "pfx_family ''10.0.0.0/24'' = Some IPv4" by (simp add: pfx_family_def)
  from malformed_announcement_purge [OF a b, of example_rib "[100, 200, 300]" IPv4 "''rrc00''"] c d
  obtain rib' where r: "update_line utc_seconds ''rrc00'' malformed_line (example_rib, example_table)
       = Continue (rib', example_table\<lparr>observers :=
             notify (Withdrawal IPv4 ''rrc00'' ''1.2.3.4'' ''10.0.0.0/24'' [100, 200, 300])
               (observers example_table)\<rparr>)"
    by blast
  have "update_line utc_seconds ''rrc00'' malformed_line (example_rib, example_table)
       = Continue (withdraw_entry ''rrc00'' ''1.2.3.4'' ''10.0.0.0/24'' (example_rib, example_table))"
    by (rule update_line_failed_announcement [OF a b])
  then have "rib' = [(''1.2.3.4'', [])]"
    using r by (simp add: withdraw_entry_def example_rib_def)
  then show ?thesis using a b c d r by simp
qed

subsection \<open>Auxiliary facts on build\<close>


lemma case4:
  "(case r of [a, b, c, d] \<Rightarrow> f a b c d | _ \<Rightarrow> g)
     = (if length r = 4 then f (r ! 0) (r ! 1) (r ! 2) (r ! 3) else g)"
  by (auto split: list.splits)

lemma build_line_alt:
  "build_line flt rc line s =
     (let res = take 4 (drop 3 (py_split CHR ''|'' (py_strip line))) in
      if length res = 4 then
        (case py_int (res ! 1) of
           None \<Rightarrow> Inl ValueError
         | Some peer_asn \<Rightarrow>
             if length flt = 0 \<or> res ! 0 \<in> set flt then
               (case parse_as_path (res ! 3) of
                  None \<Rightarrow> Inr s
                | Some path \<Rightarrow>
                    if is_valid_path path peer_asn
                    then Inr (set_entry (fst s) (res ! 0) (res ! 2) path,
                              notify_pfx (res ! 2) (\<lambda>fam. AddPath fam rc (res ! 0) (res ! 2) path) (snd s))
                    else Inr s)
             else Inr s)
      else Inl ValueError)"
  unfolding build_line_def Let_def case4 by (rule refl)

lemma notify_all_Nil: "notify_all [] obs = obs"
  by (simp add: notify_all_def)

lemma notify_all_one: "notify_all [ev] obs = notify ev obs"
  by (simp add: notify_all_def)

lemma notify_all_append: "notify_all (evs @ evs') obs = notify_all evs' (notify_all evs obs)"
  by (simp add: notify_all_def)

lemma notify_all_map: "notify_all evs obs = map (deliver_all evs) obs"
proof (induction evs arbitrary: obs)
  case Nil
  then show ?case by (simp add: notify_all_def deliver_all_def)
next
  case (Cons ev evs)
  have "notify_all (ev # evs) obs = notify_all evs (notify ev obs)"
    by (simp add: notify_all_def)
  then show ?case using Cons [of "notify ev obs"]
    by (simp add: notify_def deliver_all_def)
qed

lemma build_line_observers:
  "build_line flt rc line (rib, obs) =
     (case build_line flt rc line (rib, []) of
        Inl e \<Rightarrow> Inl e
      | Inr s \<Rightarrow> Inr (fst s, notify_all (rib_line_events flt rc line) obs))"
  by (simp add: build_line_alt rib_line_events_def Let_def notify_all_Nil notify_all_one
      notify_pfx_def split: option.splits)

lemma build_line_no_observers:
  "build_line flt rc line (rib, []) = Inr s \<Longrightarrow> snd s = []"
  by (auto simp: build_line_alt Let_def notify_pfx_def notify_def split: option.splits if_splits)

lemma build_lines_no_observers:
  "build_lines flt rc lines (rib, []) = Inr s \<Longrightarrow> snd s = []"
proof (induction lines arbitrary: rib s)
  case Nil
  then show ?case by auto
next
  case (Cons l lines)
  from Cons.prems obtain s1 where s1: "build_line flt rc l (rib, []) = Inr s1"
    and rest: "build_lines flt rc lines s1 = Inr s"
    by (auto split: sum.splits)
  have "s1 = (fst s1, [])" using build_line_no_observers [OF s1] by (cases s1) simp
  then show ?case using Cons.IH [of "fst s1" s] rest by simp
qed

lemma build_lines_observers:
  "build_lines flt rc lines (rib, obs) =
     (case build_lines flt rc lines (rib, []) of
        Inl e \<Rightarrow> Inl e
      | Inr s \<Rightarrow> Inr (fst s, notify_all (concat (map (rib_line_events flt rc) lines)) obs))"
proof (induction lines arbitrary: rib obs)
  case Nil
  then show ?case by (simp add: notify_all_Nil)
next
  case (Cons l lines)
  show ?case
  proof (cases "build_line flt rc l (rib, [])")
    case (Inl e)
    then show ?thesis using build_line_observers [of flt rc l rib obs] by simp
  next
    case (Inr s1)
    have s1: "s1 = (fst s1, [])" using build_line_no_observers [OF Inr] by (cases s1) simp
    have a: "build_line flt rc l (rib, obs) = Inr (fst s1, notify_all (rib_line_events flt rc l) obs)"
      using build_line_observers [of flt rc l rib obs] Inr by simp
    have b: "build_lines flt rc lines s1 = build_lines flt rc lines (fst s1, [])"
      using s1 by simp
    show ?thesis
      using Cons.IH [of "fst s1" "notify_all (rib_line_events flt rc l) obs"]
      by (simp add: a Inr b notify_all_append split: sum.splits)
  qed
qed


lemma build_rib_from_url_observers:
  "build_rib_from_url flt url rc obs =
     (case build_rib_from_url flt url rc [] of
        Inl e \<Rightarrow> Inl e
      | Inr s \<Rightarrow> Inr (fst s, notify_all (concat (map (rib_line_events flt rc) url)) obs))"
  unfolding build_rib_from_url_def by (rule build_lines_observers)

lemma build_rib_from_url_no_observers:
  "build_rib_from_url flt url rc [] = Inr s \<Longrightarrow> snd s = []"
  unfolding build_rib_from_url_def by (rule build_lines_no_observers)

lemma build_ribs_no_observers:
  "build_ribs flt m (d, []) = Inr s \<Longrightarrow> snd s = []"
proof (induction m arbitrary: d s)
  case Nil
  then show ?case by auto
next
  case (Cons a m)
  obtain rc url where a: "a = (rc, url)" by (cases a)
  from Cons.prems obtain s1 where s1: "build_rib_from_url flt url rc [] = Inr s1"
    and rest: "build_ribs flt m (AList.update rc (fst s1) d, snd s1) = Inr s"
    by (auto simp: a split: sum.splits)
  show ?case using Cons.IH [of "AList.update rc (fst s1) d" s] rest
      build_rib_from_url_no_observers [OF s1] by simp
qed

lemma build_ribs_observers:
  "build_ribs flt m (d, obs) =
     (case build_ribs flt m (d, []) of
        Inl e \<Rightarrow> Inl e
      | Inr s \<Rightarrow> Inr (fst s, notify_all (build_events flt m) obs))"
proof (induction m arbitrary: d obs)
  case Nil
  then show ?case by (simp add: build_events_def notify_all_Nil)
next
  case (Cons a m)
  obtain rc url where a: "a = (rc, url)" by (cases a)
  show ?case
  proof (cases "build_rib_from_url flt url rc []")
    case (Inl e)
    then show ?thesis using build_rib_from_url_observers [of flt url rc obs] by (simp add: a)
  next
    case (Inr s1)
    have s1: "snd s1 = []" by (rule build_rib_from_url_no_observers [OF Inr])
    have b: "build_rib_from_url flt url rc obs
               = Inr (fst s1, notify_all (concat (map (rib_line_events flt rc) url)) obs)"
      using build_rib_from_url_observers [of flt url rc obs] Inr by simp
    have ev: "build_events flt ((rc, url) # m)
                = concat (map (rib_line_events flt rc) url) @ build_events flt m"
      by (simp add: build_events_def)
    show ?thesis
      using Cons.IH [of "AList.update rc (fst s1) d" "notify_all (concat (map (rib_line_events flt rc) url)) obs"]
        s1 Inr
      by (cases s1) (simp add: a b ev notify_all_append split: sum.splits)
  qed
qed

lemma build_observers:
  "build rc_to_url t =
     with_observers (build_events (peer_ip_filter t) rc_to_url) (observers t)
       (build rc_to_url (t\<lparr>observers := []\<rparr>))"
proof (cases "build_ribs (peer_ip_filter t) rc_to_url ([], [])")
  case (Inl e)
  then show ?thesis
    using build_ribs_observers [of "peer_ip_filter t" rc_to_url "[]" "observers t"]
    by (simp add: build_def with_observers_def)
next
  case (Inr s)
  then show ?thesis
    using build_ribs_observers [of "peer_ip_filter t" rc_to_url "[]" "observers t"]
    by (cases s) (simp add: build_def with_observers_def)
qed

lemma rib_line_events_add: "list_all is_add_path (rib_line_events flt rc line)"
  by (simp add: rib_line_events_def Let_def split: option.splits)

lemma build_events_add: "list_all is_add_path (build_events flt m)"
  by (auto simp: build_events_def list_all_iff dest!: rib_line_events_add [unfolded list_all_iff, rule_format])

lemma map_of_reset:
  "map_of (foldl (\<lambda>d rc. AList.update rc False d) d0 rcs) rc
     = (if rc \<in> set rcs then Some False else map_of d0 rc)"
  by (induction rcs arbitrary: d0) (auto simp: update_conv')

lemma build_fields:
  assumes "build rc_to_url t = Inr t'"
  shows "peer_ip_filter t' = peer_ip_filter t" "ts_start t' = ts_start t" "ts_end t' = ts_end t"
    "map_of (stop_updating t') rc = (if rc \<in> fst ` set rc_to_url then Some False else None)"
  using assms by (force simp: build_def map_of_reset split: sum.splits)+

lemma build_ignores_state:
  "build rc_to_url (t\<lparr>data := d, stop_updating := su\<rparr>) = build rc_to_url t"
  by (simp add: build_def split: sum.splits)



lemma without_observers_init:
  "t\<lparr>observers := [], data := [], stop_updating := []\<rparr>
     = init_RIBTable (peer_ip_filter t) (ts_start t) (ts_end t)"
  by (cases t) (simp add: init_RIBTable_def)

lemma build_fresh:
  "build m (t\<lparr>observers := []\<rparr>) = build m (init_RIBTable (peer_ip_filter t) (ts_start t) (ts_end t))"
proof -
  have "build m (t\<lparr>observers := []\<rparr>) = build m (t\<lparr>observers := []\<rparr>\<lparr>data := [], stop_updating := []\<rparr>)"
    by (rule build_ignores_state [symmetric])
  then show ?thesis by (simp add: without_observers_init)
qed

lemma build_example:
  "build [(''rrc00'', [rib_line])] fresh_table = Inr (built_table 1)"
  "build [(''rrc00'', [rib_line])] (built_table 1) = Inr (built_table 2)"
  by (simp_all add: build_def build_rib_from_url_def build_line_def fresh_table_def rib_line_def
      built_table_def attach_observer_def init_RIBTable_def parse_as_path_def is_valid_path_def
      set_entry_def notify_pfx_def pfx_family_def notify_def PathObserver_add_path_def bump_def
      get0_def py_int_def int_strip_def is_int_space_def int_max_str_digits_def py_strip_def py_rstrip_def
      py_numeral_def is_space_def is_digit_def
      digit_val_def)

section \<open>Termination per collector\<close>

text \<open>
  C2, as the claim states it, fails: \<^verbatim>\<open>update\<close> never reads \<open>stop_updating\<close>. After a
  record that is too late has set the flag of \<^verbatim>\<open>rrc00\<close>, a later call of \<^verbatim>\<open>update\<close> with a
  withdrawal inside the window deletes the entry and notifies the observers.
\<close>

theorem stop_updating_latch_counterexample:
  "update utc_seconds [(''rrc00'', [late_line])] example_table = Inr stopped_table
   \<and> map_of (stop_updating stopped_table) ''rrc00'' = Some True
   \<and> update utc_seconds [(''rrc00'', [withdrawal_line])] stopped_table = Inr withdrawn_table
   \<and> data withdrawn_table \<noteq> data stopped_table
   \<and> observers withdrawn_table \<noteq> observers stopped_table"
  by (simp add: stopped_table_def withdrawn_table_def update_rib_from_url_def update_line_def
      apply_update_def withdraw_entry_def notify_pfx_def pfx_family_def notify_def set_stop_def
      PathObserver_remove_path_def get0_def Let_def bump_def bump2_def empty_counts_def ex_defs)

text \<open>
  C2, amended. A record that stops the reading (it is later than \<open>ts_end\<close> + 1 s and not
  earlier than \<open>ts_start\<close>) ends its file: the records after it are not read, and a file
  that holds such a record and returns leaves \<open>stop_updating[rc]\<close> true. A flag that is
  true stays true through every later call of \<^verbatim>\<open>update\<close>. The flag only records this:
  \<^verbatim>\<open>update\<close> does not read it, so a call gives the same error, or the same RIBs and the
  same observers, whatever the flags are. The records of later files therefore go
  through the test of the window as before: a file whose records all lie outside the
  window changes neither the RIB nor any observer, and a withdrawal inside the window
  for a stored entry deletes the entry and notifies the observers of the withdrawal of
  the stored path, the flags unchanged. \<^verbatim>\<open>build\<close> sets the flag of each of its
  collectors to false.
\<close>

theorem stop_updating_latch:
  "(stops utc t l \<longrightarrow>
      update_rib_from_url utc (pre @ l # post) rc t = update_rib_from_url utc (pre @ [l]) rc t)
   \<and> (list_ex (stops utc t) url \<and> update_rib_from_url utc url rc t = Inr t1 \<longrightarrow>
        map_of (stop_updating t1) rc = Some True)
   \<and> (update utc m t = Inr t2 \<and> map_of (stop_updating t) rc = Some True \<longrightarrow>
        map_of (stop_updating t2) rc = Some True)
   \<and> outcome (update utc m (with_flags f t)) = outcome (update utc m t)
   \<and> (list_all (\<lambda>l. too_early utc t l \<or> too_late utc t l) url
        \<and> update_rib_from_url utc url rc t = Inr t3 \<longrightarrow>
        data t3 = data t \<and> observers t3 = observers t)
   \<and> (window_withdrawal utc t line peer_ip pfx \<and> stored (data t) rc peer_ip pfx = Some old \<longrightarrow>
        (\<exists>t4. update utc [(rc, [line])] t = Inr t4
           \<and> stored (data t4) rc peer_ip pfx = None
           \<and> observers t4 = notify_pfx pfx (\<lambda>fam. Withdrawal fam rc peer_ip pfx old) (observers t)
           \<and> stop_updating t4 = stop_updating t))
   \<and> (build rc_to_url t = Inr t5 \<and> rc \<in> fst ` set rc_to_url \<longrightarrow>
        map_of (stop_updating t5) rc = Some False)"
proof (intro conjI impI)
  show "update_rib_from_url utc (pre @ l # post) rc t = update_rib_from_url utc (pre @ [l]) rc t"
    if "stops utc t l"
    using that by (rule update_rib_from_url_rest_unread)
  show "map_of (stop_updating t1) rc = Some True"
    if "list_ex (stops utc t) url \<and> update_rib_from_url utc url rc t = Inr t1"
    using that update_rib_from_url_flag_set by blast
  show "map_of (stop_updating t2) rc = Some True"
    if "update utc m t = Inr t2 \<and> map_of (stop_updating t) rc = Some True"
    using that update_stop_kept by blast
  show "outcome (update utc m (with_flags f t)) = outcome (update utc m t)"
    by (rule update_outcome_flags)
  show "data t3 = data t" "observers t3 = observers t"
    if "list_all (\<lambda>l. too_early utc t l \<or> too_late utc t l) url
          \<and> update_rib_from_url utc url rc t = Inr t3"
    using that update_rib_from_url_outside [of utc t url rc t3] by blast+
  show "\<exists>t4. update utc [(rc, [line])] t = Inr t4
           \<and> stored (data t4) rc peer_ip pfx = None
           \<and> observers t4 = notify_pfx pfx (\<lambda>fam. Withdrawal fam rc peer_ip pfx old) (observers t)
           \<and> stop_updating t4 = stop_updating t"
    if "window_withdrawal utc t line peer_ip pfx \<and> stored (data t) rc peer_ip pfx = Some old"
    using that update_withdrawal [of utc t line peer_ip pfx rc old] by blast
  show "map_of (stop_updating t5) rc = Some False"
    if "build rc_to_url t = Inr t5 \<and> rc \<in> fst ` set rc_to_url"
    using that build_fields(4) [of rc_to_url t t5 rc] by simp
qed

theorem stop_updating_latch_witness:
  "stops utc_seconds example_table late_line
   \<and> update_rib_from_url utc_seconds ([early_line] @ late_line # [withdrawal_line]) ''rrc00'' example_table
       = Inr stopped_table
   \<and> list_ex (stops utc_seconds example_table) [early_line, late_line, withdrawal_line]
   \<and> map_of (stop_updating stopped_table) ''rrc00'' = Some True
   \<and> list_all (\<lambda>l. too_early utc_seconds stopped_table l \<or> too_late utc_seconds stopped_table l)
        [late_line, early_line]
   \<and> update utc_seconds [(''rrc00'', [late_line, early_line])] stopped_table = Inr stopped_table
   \<and> window_withdrawal utc_seconds stopped_table withdrawal_line ''1.2.3.4'' ''10.0.0.0/24''
   \<and> stored (data stopped_table) ''rrc00'' ''1.2.3.4'' ''10.0.0.0/24'' = Some [100, 200, 300]
   \<and> (\<exists>t4. update utc_seconds [(''rrc00'', [withdrawal_line])] stopped_table = Inr t4
         \<and> stored (data t4) ''rrc00'' ''1.2.3.4'' ''10.0.0.0/24'' = None
         \<and> observers t4 = notify_pfx ''10.0.0.0/24''
              (\<lambda>fam. Withdrawal fam ''rrc00'' ''1.2.3.4'' ''10.0.0.0/24'' [100, 200, 300])
              (observers stopped_table)
         \<and> stop_updating t4 = stop_updating stopped_table)
   \<and> build [(''rrc00'', [rib_line])] (with_flags [(''rrc00'', True)] (built_table 1))
       = Inr (built_table 2)
   \<and> ''rrc00'' \<in> fst ` set [(''rrc00'', [rib_line])]
   \<and> map_of (stop_updating (built_table 2)) ''rrc00'' = Some False"
proof -
  have l: "stops utc_seconds example_table late_line" by (simp add: ex_defs)
  have a: "update_rib_from_url utc_seconds ([early_line] @ [late_line]) ''rrc00'' example_table
             = Inr stopped_table"
    by (simp add: stopped_table_def update_rib_from_url_def update_line_def set_stop_def ex_defs)
  have x: "list_ex (stops utc_seconds example_table) [early_line, late_line, withdrawal_line]"
    using l by simp
  have o: "list_all (\<lambda>l. too_early utc_seconds stopped_table l \<or> too_late utc_seconds stopped_table l)
        [late_line, early_line]"
    by (simp add: stopped_table_def set_stop_def ex_defs)
  have u: "update utc_seconds [(''rrc00'', [late_line, early_line])] stopped_table = Inr stopped_table"
    by (simp add: stopped_table_def update_rib_from_url_def update_line_def set_stop_def ex_defs)
  have w: "window_withdrawal utc_seconds stopped_table withdrawal_line ''1.2.3.4'' ''10.0.0.0/24''"
    by (simp add: window_withdrawal_def stopped_table_def set_stop_def ex_defs)
  have s: "stored (data stopped_table) ''rrc00'' ''1.2.3.4'' ''10.0.0.0/24'' = Some [100, 200, 300]"
    by (simp add: stored_def entry_def stopped_table_def set_stop_def example_table_def)
  have b: "build [(''rrc00'', [rib_line])] (with_flags [(''rrc00'', True)] (built_table 1))
       = Inr (built_table 2)"
    by (simp add: build_def build_rib_from_url_def build_line_def rib_line_def
      built_table_def parse_as_path_def is_valid_path_def with_flags_def
      set_entry_def notify_pfx_def pfx_family_def notify_def PathObserver_add_path_def bump_def
      get0_def ex_defs)
  have m: "''rrc00'' \<in> fst ` set [(''rrc00'', [rib_line])]" by simp
  have r: "update_rib_from_url utc_seconds ([early_line] @ late_line # [withdrawal_line]) ''rrc00'' example_table
       = update_rib_from_url utc_seconds ([early_line] @ [late_line]) ''rrc00'' example_table"
    using stop_updating_latch [of utc_seconds example_table late_line "[early_line]"
        "[withdrawal_line]" "''rrc00''"] l
    by blast
  have r': "update_rib_from_url utc_seconds [early_line, late_line, withdrawal_line] ''rrc00'' example_table
       = Inr stopped_table"
    using r a by simp
  have f: "map_of (stop_updating stopped_table) ''rrc00'' = Some True"
    using stop_updating_latch [of utc_seconds example_table _ _ _ "''rrc00''"
        "[early_line, late_line, withdrawal_line]" stopped_table] x r'
    by blast
  have k: "\<exists>t4. update utc_seconds [(''rrc00'', [withdrawal_line])] stopped_table = Inr t4
         \<and> stored (data t4) ''rrc00'' ''1.2.3.4'' ''10.0.0.0/24'' = None
         \<and> observers t4 = notify_pfx ''10.0.0.0/24''
              (\<lambda>fam. Withdrawal fam ''rrc00'' ''1.2.3.4'' ''10.0.0.0/24'' [100, 200, 300])
              (observers stopped_table)
         \<and> stop_updating t4 = stop_updating stopped_table"
    using stop_updating_latch [of utc_seconds stopped_table _ _ _ "''rrc00''" _ _ _ _ _ _
        withdrawal_line "''1.2.3.4''" "''10.0.0.0/24''" "[100, 200, 300]"] w s
    by blast
  have g: "map_of (stop_updating (built_table 2)) ''rrc00'' = Some False"
    using stop_updating_latch [of utc_seconds "with_flags [(''rrc00'', True)] (built_table 1)"
        _ _ _ "''rrc00''" _ _ _ _ _ _ _ _ _ _ "[(''rrc00'', [rib_line])]" "built_table 2"] b m
    by blast
  show ?thesis using l r r' a x f o u w s k b m g by simp
qed

section \<open>Building a second time\<close>

text \<open>
  C10. When \<^verbatim>\<open>build\<close> is called on a table that was built before, the data and the flags
  \<open>stop_updating\<close> it leaves are those a newly constructed table would get from this
  build (all flags false, one per collector of the build), whereas the observers are not
  reset: each one is in the state that its state before the first build reaches by the
  \<^verbatim>\<open>add_path\<close> calls of the first build followed by those of the second, so the counts of
  the two builds add up.
\<close>

theorem build_again:
  assumes "build m1 t = Inr t1" and "build m2 t1 = Inr t2"
  shows "(\<exists>t0. build m2 (init_RIBTable (peer_ip_filter t) (ts_start t) (ts_end t)) = Inr t0
             \<and> data t2 = data t0 \<and> stop_updating t2 = stop_updating t0)
       \<and> (\<forall>rc. map_of (stop_updating t2) rc = (if rc \<in> fst ` set m2 then Some False else None))
       \<and> observers t2 =
           map (deliver_all (build_events (peer_ip_filter t) m1 @ build_events (peer_ip_filter t) m2))
             (observers t)
       \<and> list_all is_add_path (build_events (peer_ip_filter t) m1 @ build_events (peer_ip_filter t) m2)"
proof -
  note f1 = build_fields [OF assms(1)]
  have o1: "observers t1 = notify_all (build_events (peer_ip_filter t) m1) (observers t)"
    using assms(1) build_observers [of m1 t] by (auto simp: with_observers_def split: sum.splits)
  have b2: "build m2 t1 =
      with_observers (build_events (peer_ip_filter t) m2) (observers t1)
        (build m2 (init_RIBTable (peer_ip_filter t) (ts_start t) (ts_end t)))"
    using build_observers [of m2 t1] build_fresh [of m2 t1] f1 by simp
  then obtain t0 where t0: "build m2 (init_RIBTable (peer_ip_filter t) (ts_start t) (ts_end t)) = Inr t0"
    and t2: "t2 = t0\<lparr>observers := notify_all (build_events (peer_ip_filter t) m2) (observers t1)\<rparr>"
    using assms(2) by (auto simp: with_observers_def split: sum.splits)
  have "observers t2 =
      notify_all (build_events (peer_ip_filter t) m1 @ build_events (peer_ip_filter t) m2) (observers t)"
    using t2 o1 by (simp add: notify_all_append)
  then have obs: "observers t2 =
           map (deliver_all (build_events (peer_ip_filter t) m1 @ build_events (peer_ip_filter t) m2))
             (observers t)"
    by (simp add: notify_all_map)
  have stop: "\<forall>rc. map_of (stop_updating t2) rc = (if rc \<in> fst ` set m2 then Some False else None)"
    using build_fields(4) [OF assms(2)] by blast
  have adds: "list_all is_add_path (build_events (peer_ip_filter t) m1 @ build_events (peer_ip_filter t) m2)"
    using build_events_add [of "peer_ip_filter t" m1] build_events_add [of "peer_ip_filter t" m2]
    by simp
  show ?thesis using t0 t2 obs stop adds by auto
qed

theorem build_again_witness:
  "build [(''rrc00'', [rib_line])] fresh_table = Inr (built_table 1)
   \<and> build [(''rrc00'', [rib_line])] (built_table 1) = Inr (built_table 2)
   \<and> data (built_table 2) = data (built_table 1)
   \<and> observers (built_table 2) = [PathObserver ''path'' [([100, 200, 300], 2)]]
   \<and> observers (built_table 2) =
       map (deliver_all (build_events [] [(''rrc00'', [rib_line])] @ build_events [] [(''rrc00'', [rib_line])]))
         (observers fresh_table)"
proof -
  have f: "peer_ip_filter fresh_table = []"
    by (simp add: fresh_table_def attach_observer_def init_RIBTable_def)
  show ?thesis
    using build_again [OF build_example] build_example f
    by (simp add: built_table_def)
qed

subsection \<open>Auxiliary facts on decimal numerals\<close>


lemma digit_val_range: "is_digit c \<Longrightarrow> 0 \<le> digit_val c \<and> digit_val c \<le> 9"
  by (auto simp: is_digit_def digit_val_def)

lemma digit_val_inj: "is_digit c \<Longrightarrow> is_digit d \<Longrightarrow> digit_val c = digit_val d \<Longrightarrow> c = d"
  by (auto simp: is_digit_def digit_val_def)

lemma digit_val_zero: "is_digit c \<Longrightarrow> digit_val c = 0 \<Longrightarrow> c = CHR ''0''"
  by (auto simp: is_digit_def digit_val_def)

lemma dec_value_snoc: "dec_value (s @ [c]) = 10 * dec_value s + digit_val c"
  by (simp add: dec_value_def)

lemma foldl_dec_ge:
  "list_all is_digit ds \<Longrightarrow> 0 \<le> acc \<Longrightarrow> acc \<le> foldl (\<lambda>a c. 10 * a + digit_val c) acc ds"
proof (induction ds arbitrary: acc)
  case Nil
  then show ?case by simp
next
  case (Cons d ds)
  have "0 \<le> digit_val d" using Cons.prems(1) digit_val_range by simp
  then have "acc \<le> 10 * acc + digit_val d" "0 \<le> 10 * acc + digit_val d"
    using Cons.prems(2) by simp_all
  then show ?case using Cons.IH [of "10 * acc + digit_val d"] Cons.prems(1) by force
qed

lemma nlz_pos: "nlz s \<Longrightarrow> s \<noteq> [] \<Longrightarrow> 0 < dec_value s"
proof -
  assume a: "nlz s" "s \<noteq> []"
  then obtain c cs where s: "s = c # cs" by (cases s) auto
  have d: "is_digit c" "list_all is_digit cs" "c \<noteq> CHR ''0''" using a by (auto simp: nlz_def s)
  have "0 < digit_val c" using d digit_val_zero digit_val_range
    by (metis order_le_less)
  moreover have "digit_val c \<le> foldl (\<lambda>a c. 10 * a + digit_val c) (digit_val c) cs"
    using foldl_dec_ge [OF d(2), of "digit_val c"] calculation by simp
  ultimately show ?thesis by (simp add: dec_value_def s)
qed

lemma nlz_butlast: "nlz (s @ [c]) \<Longrightarrow> nlz s"
  by (cases s) (auto simp: nlz_def)

lemma nlz_inj: "nlz s \<Longrightarrow> nlz t \<Longrightarrow> dec_value s = dec_value t \<Longrightarrow> s = t"
proof (induction s arbitrary: t rule: rev_induct)
  case Nil
  then show ?case using nlz_pos [of t] by (cases "t = []") (auto simp: dec_value_def)
next
  case (snoc c s)
  have pos: "0 < dec_value (s @ [c])" using snoc.prems(1) nlz_pos by blast
  then have "t \<noteq> []" using snoc.prems(3) by (auto simp: dec_value_def)
  then obtain t' d where t: "t = t' @ [d]" by (cases t rule: rev_cases) auto
  have dc: "is_digit c" "is_digit d" using snoc.prems(1,2) by (auto simp: nlz_def t)
  have eq: "10 * dec_value s + digit_val c = 10 * dec_value t' + digit_val d"
    using snoc.prems(3) by (simp add: t dec_value_snoc)
  have "digit_val c = digit_val d \<and> dec_value s = dec_value t'"
    using eq digit_val_range [OF dc(1)] digit_val_range [OF dc(2)] by presburger
  then have "c = d" "s = t'"
    using digit_val_inj [OF dc] snoc.IH [of t'] nlz_butlast snoc.prems(1,2) t by blast+
  then show ?case by (simp add: t)
qed

lemma canonical_cases: "canonical_numeral s \<Longrightarrow> s = ''0'' \<or> (nlz s \<and> s \<noteq> [])"
  by (auto simp: canonical_numeral_def digit_string_def nlz_def)

lemma canonical_inj:
  assumes "canonical_numeral s" "canonical_numeral t" "py_int s = py_int t" "py_int s \<noteq> None"
  shows "s = t"
proof -
  have v: "dec_value s = dec_value t"
    using assms py_int_digits [of s] py_int_digits [of t]
    by (simp add: canonical_numeral_def split: if_splits)
  have z: "dec_value ''0'' = 0" by (simp add: dec_value_def digit_val_def)
  show ?thesis
    using canonical_cases [OF assms(1)] canonical_cases [OF assms(2)] v z
      nlz_pos [of s] nlz_pos [of t] nlz_inj [of s t]
    by (metis less_irrefl)
qed


subsection \<open>Auxiliary facts: where a stored path comes from\<close>


lemma build_line_entry:
  assumes "build_line flt rc line (rib, obs) = Inr s'" and "entry (fst s') p x = Some path"
  shows "entry rib p x = Some path
         \<or> (\<exists>asn a. rib_announces line p x asn a \<and> sanitized asn a path)"
proof -
  define res where "res = take 4 (drop 3 (py_split CHR ''|'' (py_strip line)))"
  have len: "length res = 4"
    using assms(1) by (simp add: build_line_alt Let_def res_def [symmetric] split: if_splits)
  then have res: "res = [res ! 0, res ! 1, res ! 2, res ! 3]"
    by (auto simp: list_eq_iff_nth_eq nth_Cons' numeral_eq_Suc less_Suc_eq)
  have "fst s' = rib
        \<or> (\<exists>asn path'. py_int (res ! 1) = Some asn \<and> parse_as_path (res ! 3) = Some path'
              \<and> is_valid_path path' asn \<and> fst s' = set_entry rib (res ! 0) (res ! 2) path')"
    using assms(1) len
    by (auto simp: build_line_alt Let_def res_def [symmetric] split: option.splits if_splits)
  then show ?thesis
  proof
    assume "fst s' = rib"
    then show ?thesis using assms(2) by simp
  next
    assume "\<exists>asn path'. py_int (res ! 1) = Some asn \<and> parse_as_path (res ! 3) = Some path'
              \<and> is_valid_path path' asn \<and> fst s' = set_entry rib (res ! 0) (res ! 2) path'"
    then obtain asn path' where
      asn: "py_int (res ! 1) = Some asn" and pp: "parse_as_path (res ! 3) = Some path'"
      and valid: "is_valid_path path' asn"
      and s': "fst s' = set_entry rib (res ! 0) (res ! 2) path'"
      by blast
    show ?thesis
    proof (cases "p = res ! 0 \<and> x = res ! 2")
      case True
      then have "path = path'" using assms(2) s' by (simp add: entry_set_entry)
      then have "sanitized (res ! 1) (res ! 3) path"
        using asn pp valid by (simp add: sanitized_def)
      moreover have "rib_announces line p x (res ! 1) (res ! 3)"
        using True res by (simp add: rib_announces_def res_def [symmetric])
      ultimately show ?thesis by blast
    next
      case False
      then show ?thesis using assms(2) s' by (auto simp: entry_set_entry)
    qed
  qed
qed

lemma build_lines_entry:
  "build_lines flt rc lines (rib, obs) = Inr s' \<Longrightarrow> entry (fst s') p x = Some path \<Longrightarrow>
   entry rib p x = Some path
   \<or> (\<exists>line\<in>set lines. \<exists>asn a. rib_announces line p x asn a \<and> sanitized asn a path)"
proof (induction lines arbitrary: rib obs)
  case Nil
  then show ?case by auto
next
  case (Cons l lines)
  from Cons.prems(1) obtain s1 where s1: "build_line flt rc l (rib, obs) = Inr s1"
    and rest: "build_lines flt rc lines s1 = Inr s'"
    by (auto split: sum.splits)
  from Cons.IH [of "fst s1" "snd s1"] rest Cons.prems(2)
  have "entry (fst s1) p x = Some path
        \<or> (\<exists>line\<in>set lines. \<exists>asn a. rib_announces line p x asn a \<and> sanitized asn a path)"
    by simp
  then show ?case using build_line_entry [OF s1, of p x path] by auto
qed

lemma entry_Nil: "entry [] p x = None"
  by (simp add: entry_def)

lemma stored_update:
  "stored (AList.update rc rib d) rc' p x = (if rc' = rc then entry rib p x else stored d rc' p x)"
  by (simp add: stored_def update_conv')

lemma lines_of_Cons:
  "lines_of rc ((rc1, url) # m) = (if rc1 = rc then url @ lines_of rc m else lines_of rc m)"
  by (simp add: lines_of_def)

lemma build_ribs_stored:
  "build_ribs flt m (d, obs) = Inr s' \<Longrightarrow> stored (fst s') rc p x = Some path \<Longrightarrow>
   stored d rc p x = Some path
   \<or> (\<exists>line\<in>set (lines_of rc m). \<exists>asn a. rib_announces line p x asn a \<and> sanitized asn a path)"
proof (induction m arbitrary: d obs)
  case Nil
  then show ?case by auto
next
  case (Cons e m)
  obtain rc1 url where e: "e = (rc1, url)" by (cases e)
  from Cons.prems(1) obtain s1 where s1: "build_rib_from_url flt url rc1 obs = Inr s1"
    and rest: "build_ribs flt m (AList.update rc1 (fst s1) d, snd s1) = Inr s'"
    by (auto simp: e split: sum.splits)
  from Cons.IH [OF rest Cons.prems(2)]
  have "stored (AList.update rc1 (fst s1) d) rc p x = Some path
        \<or> (\<exists>line\<in>set (lines_of rc m). \<exists>asn a. rib_announces line p x asn a \<and> sanitized asn a path)" .
  moreover have "entry (fst s1) p x = Some path \<Longrightarrow>
       \<exists>line\<in>set url. \<exists>asn a. rib_announces line p x asn a \<and> sanitized asn a path"
    using build_lines_entry [of flt rc1 url "[]" obs s1 p x path] s1
    by (simp add: build_rib_from_url_def entry_Nil)
  ultimately show ?case
    by (auto simp: e stored_update lines_of_Cons split: if_splits)
qed

lemma build_stored:
  assumes "build m t = Inr t'" and "stored (data t') rc p x = Some path"
  shows "\<exists>line\<in>set (lines_of rc m). \<exists>asn a. rib_announces line p x asn a \<and> sanitized asn a path"
proof -
  from assms(1) obtain s' where s': "build_ribs (peer_ip_filter t) m ([], observers t) = Inr s'"
    and d: "data t' = fst s'"
    by (auto simp: build_def split: sum.splits)
  show ?thesis
    using build_ribs_stored [OF s', of rc p x path] assms(2) d by (simp add: stored_def)
qed



lemma apply_update_entry:
  assumes "apply_update rc u s = Continue s'" and "entry (fst s') p x = Some path"
  shows "entry (fst s) p x = Some path
         \<or> (length u = 15 \<and> u ! 2 = ''A'' \<and> u ! 3 = p \<and> u ! 5 = x \<and> sanitized (u ! 4) (u ! 6) path)"
proof -
  have "s' = s \<or> s' = withdraw_entry rc (u ! 3) (u ! 5) s
        \<or> (\<exists>asn new_path m. length u = 15 \<and> u ! 2 = ''A'' \<and> py_int (u ! 4) = Some asn
              \<and> map_of (fst s) (u ! 3) = Some m \<and> parse_as_path (u ! 6) = Some new_path
              \<and> is_valid_path new_path asn
              \<and> s' = announce_entry rc (u ! 3) (u ! 5) new_path m s)"
    using assms(1)
    by (simp add: apply_update_def Let_def split: if_splits option.splits)
  then show ?thesis
  proof (elim disjE exE conjE)
    assume "s' = s"
    then show ?thesis using assms(2) by simp
  next
    assume "s' = withdraw_entry rc (u ! 3) (u ! 5) s"
    then show ?thesis using assms(2) by (simp add: entry_withdraw split: if_splits)
  next
    fix asn new_path m
    assume a: "length u = 15" "u ! 2 = ''A''" "py_int (u ! 4) = Some asn"
      "map_of (fst s) (u ! 3) = Some m" "parse_as_path (u ! 6) = Some new_path"
      "is_valid_path new_path asn" "s' = announce_entry rc (u ! 3) (u ! 5) new_path m s"
    show ?thesis
    proof (cases "p = u ! 3 \<and> x = u ! 5")
      case True
      then have "path = new_path" using assms(2) a(4,7) by (simp add: entry_announce)
      then have "sanitized (u ! 4) (u ! 6) path" using a by (simp add: sanitized_def)
      then show ?thesis using True a by simp
    next
      case False
      then show ?thesis using assms(2) a(4,7) by (auto simp: entry_announce)
    qed
  qed
qed

lemma update_line_entry:
  assumes "update_line utc rc line s = Continue s' \<or> update_line utc rc line s = Return s'"
    and "entry (fst s') p x = Some path"
  shows "entry (fst s) p x = Some path
         \<or> (\<exists>asn a. upd_announces line p x asn a \<and> sanitized asn a path)"
proof -
  from assms(1) have "fst s' = fst s \<or> apply_update rc (upd_fields line) s = Continue s'"
    by (auto simp: update_line_alt apply_update_not_Return split: option.splits if_splits)
  then show ?thesis
  proof
    assume "fst s' = fst s"
    then show ?thesis using assms(2) by simp
  next
    assume "apply_update rc (upd_fields line) s = Continue s'"
    from apply_update_entry [OF this assms(2)] show ?thesis
      by (auto simp: upd_announces_def)
  qed
qed

lemma update_lines_entry:
  "update_lines utc rc lines s = Inr s' \<Longrightarrow> entry (fst s') p x = Some path \<Longrightarrow>
   entry (fst s) p x = Some path
   \<or> (\<exists>line\<in>set lines. \<exists>asn a. upd_announces line p x asn a \<and> sanitized asn a path)"
proof (induction lines arbitrary: s)
  case Nil
  then show ?case by simp
next
  case (Cons l lines)
  show ?case
  proof (cases "update_line utc rc l s")
    case (Continue s1)
    then have rest: "update_lines utc rc lines s1 = Inr s'" using Cons.prems(1) by simp
    from Cons.IH [OF rest Cons.prems(2)]
    have "entry (fst s1) p x = Some path
        \<or> (\<exists>line\<in>set lines. \<exists>asn a. upd_announces line p x asn a \<and> sanitized asn a path)" .
    then show ?thesis
      using update_line_entry [of utc rc l s s1 p x path] Continue by auto
  next
    case (Return s1)
    then have "s1 = s'" using Cons.prems(1) by simp
    then show ?thesis
      using update_line_entry [of utc rc l s s' p x path] Return Cons.prems(2) by auto
  next
    case (Raise e)
    then show ?thesis using Cons.prems(1) by simp
  qed
qed

lemma stored_rib: "map_of d rc = Some rib \<Longrightarrow> stored d rc p x = entry rib p x"
  by (simp add: stored_def)

lemma update_rib_from_url_stored:
  assumes "update_rib_from_url utc url rc t = Inr t'" and "stored (data t') rc' p x = Some path"
  shows "stored (data t) rc' p x = Some path
         \<or> (rc' = rc \<and> (\<exists>line\<in>set url. \<exists>asn a. upd_announces line p x asn a \<and> sanitized asn a path))"
proof -
  from assms(1) obtain rib s' where rib: "map_of (data t) rc = Some rib"
    and s': "update_lines utc rc url (rib, t) = Inr s'"
    and t': "t' = (snd s')\<lparr>data := AList.update rc (fst s') (data (snd s'))\<rparr>"
    by (auto simp: update_rib_from_url_def split: option.splits sum.splits)
  have d: "data (snd s') = data t" using update_lines_table [OF s'] by simp
  show ?thesis
  proof (cases "rc' = rc")
    case True
    then have "entry (fst s') p x = Some path"
      using assms(2) by (simp add: t' stored_update)
    from update_lines_entry [OF s' this] show ?thesis
      using True rib by (auto simp: stored_rib)
  next
    case False
    then show ?thesis using assms(2) by (simp add: t' d stored_update)
  qed
qed

lemma update_stored:
  "update utc m t = Inr t' \<Longrightarrow> stored (data t') rc p x = Some path \<Longrightarrow>
   stored (data t) rc p x = Some path
   \<or> (\<exists>line\<in>set (lines_of rc m). \<exists>asn a. upd_announces line p x asn a \<and> sanitized asn a path)"
proof (induction m arbitrary: t)
  case Nil
  then show ?case by simp
next
  case (Cons e m)
  obtain rc1 url where e: "e = (rc1, url)" by (cases e)
  from Cons.prems(1) obtain t1 where t1: "update_rib_from_url utc url rc1 t = Inr t1"
    and rest: "update utc m t1 = Inr t'"
    by (auto simp: e split: sum.splits)
  from Cons.IH [OF rest Cons.prems(2)]
  have "stored (data t1) rc p x = Some path
        \<or> (\<exists>line\<in>set (lines_of rc m). \<exists>asn a. upd_announces line p x asn a \<and> sanitized asn a path)" .
  then show ?case
    using update_rib_from_url_stored [OF t1, of rc p x path]
    by (auto simp: e lines_of_Cons)
qed

lemma updates_stored:
  "updates utc ms t = Inr t' \<Longrightarrow> stored (data t') rc p x = Some path \<Longrightarrow>
   stored (data t) rc p x = Some path
   \<or> (\<exists>m\<in>set ms. \<exists>line\<in>set (lines_of rc m). \<exists>asn a. upd_announces line p x asn a \<and> sanitized asn a path)"
proof (induction ms arbitrary: t)
  case Nil
  then show ?case by simp
next
  case (Cons m ms)
  from Cons.prems(1) obtain t1 where t1: "update utc m t = Inr t1"
    and rest: "updates utc ms t1 = Inr t'"
    by (auto split: sum.splits)
  from Cons.IH [OF rest Cons.prems(2)]
  have "stored (data t1) rc p x = Some path
        \<or> (\<exists>m\<in>set ms. \<exists>line\<in>set (lines_of rc m). \<exists>asn a. upd_announces line p x asn a \<and> sanitized asn a path)" .
  then show ?case
    using update_stored [OF t1, of rc p x path] by auto
qed

lemma those_Some: "those xs = Some ys \<Longrightarrow> xs = map Some ys"
  by (induction xs arbitrary: ys) (auto split: option.splits)

lemma sanitized_canonical:
  assumes "sanitized peer_asn as_path path"
  shows "2 \<le> length path \<and> py_int peer_asn = Some (hd path)
       \<and> map py_int (remdups_adj (py_split CHR '' '' as_path)) = map Some path
       \<and> (list_all canonical_numeral (py_split CHR '' '' as_path) \<longrightarrow> distinct_adj path)"
proof -
  from assms obtain asn where asn: "py_int peer_asn = Some asn"
    and pp: "parse_as_path as_path = Some path" and valid: "is_valid_path path asn"
    by (auto simp: sanitized_def split: option.splits)
  have len: "2 \<le> length path" using valid by (simp add: is_valid_path_def)
  then have "path \<noteq> []" by auto
  then have hd: "hd path = asn" using valid by (simp add: is_valid_path_def hd_conv_nth)
  have m: "map py_int (remdups_adj (py_split CHR '' '' as_path)) = map Some path"
    using pp by (simp add: parse_as_path_alt those_Some)
  have "distinct_adj path" if c: "list_all canonical_numeral (py_split CHR '' '' as_path)"
  proof -
    have "py_int tok \<noteq> None" if "tok \<in> set (remdups_adj (py_split CHR '' '' as_path))" for tok
    proof -
      have "py_int tok \<in> set (map py_int (remdups_adj (py_split CHR '' '' as_path)))"
        using that by simp
      then show ?thesis unfolding m by auto
    qed
    moreover have "canonical_numeral tok" if "tok \<in> set (remdups_adj (py_split CHR '' '' as_path))" for tok
      using that c by (simp add: list_all_iff)
    ultimately have "inj_on py_int (set (remdups_adj (py_split CHR '' '' as_path)))"
      by (intro inj_onI canonical_inj) simp_all
    then have "distinct_adj (map py_int (remdups_adj (py_split CHR '' '' as_path)))"
      by (intro distinct_adj_mapI) simp_all
    then have "distinct_adj (map Some path)" by (simp add: m)
    then show ?thesis by (simp add: distinct_adj_map_iff)
  qed
  then show ?thesis using len hd asn m by simp
qed

section \<open>Canonical stored paths\<close>

text \<open>
  C1, as the claim states it, fails: \<^verbatim>\<open>groupby\<close> collapses the runs of tokens that are
  equal as text, before \<^verbatim>\<open>int\<close> is applied. The tokens \<^verbatim>\<open>100\<close> and \<^verbatim>\<open>0100\<close> differ as
  text and are the same number, so the RIB record with the path \<^verbatim>\<open>100 0100\<close> of peer
  100 is stored as the path 100, 100.
\<close>


theorem canonicality_counterexample:
  "build [(''rrc00'', [zero_line])] fresh_table = Inr zero_table
   \<and> stored (data zero_table) ''rrc00'' ''1.2.3.4'' ''10.0.0.0/8'' = Some [100, 100]
   \<and> \<not> distinct_adj [100, 100 :: int]"
  by (simp add: build_def build_rib_from_url_def build_line_def fresh_table_def zero_line_def
      zero_table_def attach_observer_def init_RIBTable_def parse_as_path_def is_valid_path_def
      set_entry_def notify_pfx_def pfx_family_def notify_def PathObserver_add_path_def bump_def
      get0_def py_int_def int_strip_def is_int_space_def int_max_str_digits_def py_strip_def py_rstrip_def
      py_numeral_def is_space_def is_digit_def
      digit_val_def stored_def entry_def)

text \<open>
  C1, amended. After \<^verbatim>\<open>build\<close> and any number of calls of \<^verbatim>\<open>update\<close>, every path stored
  for a collector, peer and prefix was announced by a record for that peer and prefix,
  of the RIB dump or of an update file of the collector: the path has at least two
  ASNs, its first ASN is the peer ASN of that record, and it is the list of the record's
  tokens, runs of tokens equal as text collapsed, read as integers. No two adjacent ASNs
  are equal when the tokens of the record are canonical decimal numerals.
\<close>

theorem stored_paths_canonical:
  assumes "build rc_to_url t0 = Inr t1" and "updates utc ms t1 = Inr t"
    and "stored (data t) rc peer_ip pfx = Some path"
  shows "\<exists>line peer_asn as_path.
           ((line \<in> set (lines_of rc rc_to_url) \<and> rib_announces line peer_ip pfx peer_asn as_path)
            \<or> (\<exists>m\<in>set ms. line \<in> set (lines_of rc m)
                  \<and> upd_announces line peer_ip pfx peer_asn as_path))
           \<and> 2 \<le> length path \<and> py_int peer_asn = Some (hd path)
           \<and> map py_int (remdups_adj (py_split CHR '' '' as_path)) = map Some path
           \<and> (list_all canonical_numeral (py_split CHR '' '' as_path) \<longrightarrow> distinct_adj path)"
proof -
  from updates_stored [OF assms(2,3)] build_stored [OF assms(1), of rc peer_ip pfx path]
  obtain line peer_asn as_path where
    src: "(line \<in> set (lines_of rc rc_to_url) \<and> rib_announces line peer_ip pfx peer_asn as_path)
          \<or> (\<exists>m\<in>set ms. line \<in> set (lines_of rc m) \<and> upd_announces line peer_ip pfx peer_asn as_path)"
    and san: "sanitized peer_asn as_path path"
    by blast
  from sanitized_canonical [OF san] src show ?thesis by blast
qed

theorem stored_paths_canonical_witness:
  "build [(''rrc00'', [rib_line])] fresh_table = Inr (built_table 1)
   \<and> updates utc_seconds [[(''rrc00'', [early_line])]] (built_table 1) = Inr (built_table 1)
   \<and> stored (data (built_table 1)) ''rrc00'' ''1.2.3.4'' ''10.0.0.0/24'' = Some [100, 200, 300]
   \<and> (\<exists>line peer_asn as_path.
         ((line \<in> set (lines_of ''rrc00'' [(''rrc00'', [rib_line])])
             \<and> rib_announces line ''1.2.3.4'' ''10.0.0.0/24'' peer_asn as_path)
          \<or> (\<exists>m\<in>set [[(''rrc00'', [early_line])]]. line \<in> set (lines_of ''rrc00'' m)
                \<and> upd_announces line ''1.2.3.4'' ''10.0.0.0/24'' peer_asn as_path))
         \<and> 2 \<le> length [100, 200, 300 :: int] \<and> py_int peer_asn = Some (hd [100, 200, 300])
         \<and> map py_int (remdups_adj (py_split CHR '' '' as_path)) = map Some [100, 200, 300]
         \<and> (list_all canonical_numeral (py_split CHR '' '' as_path) \<longrightarrow> distinct_adj [100, 200, 300 :: int]))"
proof -
  have u: "updates utc_seconds [[(''rrc00'', [early_line])]] (built_table 1) = Inr (built_table 1)"
    by (simp add: update_rib_from_url_def update_line_def built_table_def ex_defs)
  have s: "stored (data (built_table 1)) ''rrc00'' ''1.2.3.4'' ''10.0.0.0/24'' = Some [100, 200, 300]"
    by (simp add: stored_def entry_def built_table_def)
  from stored_paths_canonical [OF build_example(1) u s] build_example(1) u s
  show ?thesis by blast
qed

subsection \<open>Auxiliary facts on compare\<close>


lemma isolated_remove_isolates: "isolated (remove_isolates g) n = isolated g n"
  by (simp add: isolated_def remove_isolates_def)

lemma remove_isolates_idem: "remove_isolates (remove_isolates g) = remove_isolates g"
  by (simp add: remove_isolates_def isolated_def)

lemma strip_isolates_idem: "strip_isolates (strip_isolates obs) = strip_isolates obs"
  by (cases obs) (simp_all add: remove_isolates_idem)

lemma name_strip_isolates: "name (strip_isolates obs) = name obs"
  by (cases obs) simp_all

lemma comparable_strip_isolates: "comparable (strip_isolates own) oo = comparable own oo"
  by (cases own; cases oo) simp_all

lemma edge_state_strip_isolates: "edge_state (strip_isolates obs) = edge_state obs"
  by (cases obs) (simp_all add: remove_isolates_def)

lemma observer_compare_cases:
  "fst (observer_compare own oo) = own \<or> fst (observer_compare own oo) = strip_isolates own"
  by (cases own; cases oo) simp_all

lemma observer_compare_None:
  "snd (observer_compare own oo) = None \<Longrightarrow> fst (observer_compare own oo) = strip_isolates own"
  by (cases own; cases oo) simp_all

lemma observer_compare_comparable: "comparable own oo \<Longrightarrow> snd (observer_compare own oo) = None"
  by (cases own; cases oo) simp_all

lemma stripped_by_same: "stripped_by others own own"
  by (simp add: stripped_by_def)

lemma stripped_by_refl: "list_all2 (stripped_by others) own own"
  by (simp add: list_all2_refl stripped_by_def)

lemma stripped_by_mono:
  "set os \<subseteq> set os' \<Longrightarrow> stripped_by os a b \<Longrightarrow> stripped_by os' a b"
  by (auto simp: stripped_by_def)

lemma stripped_by_trans: "stripped_by os a b \<Longrightarrow> stripped_by os b c \<Longrightarrow> stripped_by os a c"
  by (auto simp: stripped_by_def strip_isolates_idem name_strip_isolates)

lemma list_all2_stripped_by_mono:
  "set os \<subseteq> set os' \<Longrightarrow> list_all2 (stripped_by os) xs ys \<Longrightarrow> list_all2 (stripped_by os') xs ys"
  by (erule list_all2_mono) (rule stripped_by_mono)

lemma list_all2_stripped_by_trans:
  "list_all2 (stripped_by os) xs ys \<Longrightarrow> list_all2 (stripped_by os) ys zs \<Longrightarrow>
   list_all2 (stripped_by os) xs zs"
  by (rule list_all2_trans [of "stripped_by os" "stripped_by os" "stripped_by os"])
     (auto intro: stripped_by_trans)

lemma compare_own_stripped:
  "list_all2 (stripped_by [oo]) (fst (compare_own oo own)) own"
proof (induction own)
  case Nil
  then show ?case by simp
next
  case (Cons a own)
  obtain rest' q where co: "compare_own oo own = (rest', q)" by (cases "compare_own oo own")
  have ih: "list_all2 (stripped_by [oo]) rest' own" using Cons co by simp
  show ?case
  proof (cases "name oo = name a")
    case False
    then show ?thesis using ih co by (simp add: stripped_by_same)
  next
    case True
    have a: "stripped_by [oo] (fst (observer_compare a oo)) a"
      using observer_compare_cases [of a oo] True by (auto simp: stripped_by_def)
    show ?thesis
    proof (cases "snd (observer_compare a oo)")
      case None
      then show ?thesis using True a ih co
        by (cases "observer_compare a oo") simp
    next
      case (Some e)
      then show ?thesis using True a stripped_by_refl [of "[oo]" own]
        by (cases "observer_compare a oo") simp
    qed
  qed
qed

lemma compare_own_None:
  "snd (compare_own oo own) = None \<Longrightarrow> fst (compare_own oo own) = strip_matched [oo] own"
proof (induction own)
  case Nil
  then show ?case by (simp add: strip_matched_def)
next
  case (Cons a own)
  obtain rest' q where co: "compare_own oo own = (rest', q)" by (cases "compare_own oo own")
  show ?case
  proof (cases "name oo = name a")
    case False
    then have "q = None" using Cons.prems co by simp
    then have "rest' = strip_matched [oo] own" using Cons.IH co by simp
    then show ?thesis using False co by (simp add: strip_matched_def)
  next
    case True
    obtain a' r where oc: "observer_compare a oo = (a', r)" by (cases "observer_compare a oo")
    have r: "r = None" using Cons.prems True oc by (cases r) simp_all
    then have a': "a' = strip_isolates a" using observer_compare_None [of a oo] oc by simp
    have "q = None" using Cons.prems True oc r co by simp
    then have "rest' = strip_matched [oo] own" using Cons.IH co by simp
    then show ?thesis using True oc r a' co by (simp add: strip_matched_def)
  qed
qed

lemma compare_observers_stripped:
  "list_all2 (stripped_by others) (fst (compare_observers others own)) own"
proof (induction others arbitrary: own)
  case Nil
  then show ?case by (simp add: stripped_by_refl)
next
  case (Cons oo others)
  obtain own1 r where o1: "compare_own oo own = (own1, r)" by (cases "compare_own oo own")
  have s1: "list_all2 (stripped_by (oo # others)) own1 own"
    using compare_own_stripped [of oo own] o1
    by (auto intro: list_all2_stripped_by_mono [of "[oo]"])
  show ?case
  proof (cases r)
    case None
    have "list_all2 (stripped_by (oo # others)) (fst (compare_observers others own1)) own1"
      using Cons.IH [of own1] by (auto intro: list_all2_stripped_by_mono [of others])
    then show ?thesis using s1 o1 None
      by (auto intro: list_all2_stripped_by_trans)
  next
    case (Some e)
    then show ?thesis using s1 o1 by simp
  qed
qed

lemma strip_matched_Cons:
  "strip_matched others (strip_matched [oo] own) = strip_matched (oo # others) own"
  by (induction own) (auto simp: strip_matched_def name_strip_isolates strip_isolates_idem)

lemma compare_observers_None:
  "snd (compare_observers others own) = None \<Longrightarrow>
   fst (compare_observers others own) = strip_matched others own"
proof (induction others arbitrary: own)
  case Nil
  then show ?case by (simp add: strip_matched_def)
next
  case (Cons oo others)
  obtain own1 r where o1: "compare_own oo own = (own1, r)" by (cases "compare_own oo own")
  have r: "r = None" using Cons.prems o1 by (cases r) simp_all
  then have own1: "own1 = strip_matched [oo] own" using compare_own_None [of oo own] o1 by simp
  have "snd (compare_observers others own1) = None" using Cons.prems o1 r by simp
  from Cons.IH [OF this] show ?case using o1 r own1 by (simp add: strip_matched_Cons)
qed

lemma compare_own_ready:
  "list_all (\<lambda>own. name oo \<noteq> name own \<or> comparable own oo) own \<Longrightarrow>
   snd (compare_own oo own) = None"
proof (induction own)
  case Nil
  then show ?case by simp
next
  case (Cons a own)
  obtain rest' q where co: "compare_own oo own = (rest', q)" by (cases "compare_own oo own")
  have r: "q = None" using Cons co by simp
  show ?case
  proof (cases "name oo = name a")
    case True
    then have "comparable a oo" using Cons.prems by simp
    then have "snd (observer_compare a oo) = None" by (rule observer_compare_comparable)
    then show ?thesis using True r co
      by (cases "observer_compare a oo") simp
  next
    case False
    then show ?thesis using r co by simp
  qed
qed

lemma stripped_ready:
  "list_all2 (stripped_by os) own' own \<Longrightarrow>
   list_all (\<lambda>own. name oo \<noteq> name own \<or> comparable own oo) own \<Longrightarrow>
   list_all (\<lambda>own. name oo \<noteq> name own \<or> comparable own oo) own'"
  by (induction rule: list_all2_induct)
     (auto simp: stripped_by_def name_strip_isolates comparable_strip_isolates)

lemma compare_observers_ready:
  "list_all (\<lambda>oo. list_all (\<lambda>own. name oo \<noteq> name own \<or> comparable own oo) own) others \<Longrightarrow>
   snd (compare_observers others own) = None"
proof (induction others arbitrary: own)
  case Nil
  then show ?case by simp
next
  case (Cons oo others)
  obtain own1 r where o1: "compare_own oo own = (own1, r)" by (cases "compare_own oo own")
  have r: "r = None" using compare_own_ready [of oo own] Cons.prems o1 by simp
  have "list_all2 (stripped_by [oo]) own1 own" using compare_own_stripped [of oo own] o1 by simp
  then have "list_all (\<lambda>oo. list_all (\<lambda>own. name oo \<noteq> name own \<or> comparable own oo) own1) others"
    using Cons.prems stripped_ready [of "[oo]" own1 own]
    by (auto simp: list_all_iff)
  from Cons.IH [OF this] show ?case using o1 r by simp
qed

lemma compare_peers_keys:
  "has_key (fst (compare_peers rc peers od)) rc' = has_key od rc'"
proof (induction peers arbitrary: od)
  case Nil
  then show ?case by simp
next
  case (Cons p peers)
  show ?case
  proof (cases "map_of od rc")
    case None
    then show ?thesis by simp
  next
    case (Some orib)
    show ?thesis
    proof (cases "map_of orib p")
      case None
      then show ?thesis
        using Some Cons.IH [of "AList.update rc (AList.update p [] orib) od"]
        by (auto simp: has_key_def update_conv')
    next
      case (Some m)
      then show ?thesis using \<open>map_of od rc = Some orib\<close> Cons.IH [of od] by simp
    qed
  qed
qed

lemma entry_add_empty:
  "map_of orib p = None \<Longrightarrow> entry (AList.update p [] orib) p' x = entry orib p' x"
  by (simp add: entry_def update_conv')

lemma compare_peers_stored:
  "stored (fst (compare_peers rc peers od)) rc' p x = stored od rc' p x"
proof (induction peers arbitrary: od)
  case Nil
  then show ?case by simp
next
  case (Cons q peers)
  show ?case
  proof (cases "map_of od rc")
    case None
    then show ?thesis by simp
  next
    case (Some orib)
    show ?thesis
    proof (cases "map_of orib q")
      case None
      show ?thesis
        using Cons.IH [of "AList.update rc (AList.update q [] orib) od"] Some None
        by (simp add: stored_update entry_add_empty stored_rib)
    next
      case (Some m)
      then show ?thesis using Cons.IH [of od] \<open>map_of od rc = Some orib\<close> by simp
    qed
  qed
qed

lemma compare_peers_ready:
  "peers = [] \<or> has_key od rc \<Longrightarrow> snd (compare_peers rc peers od) = None"
proof (induction peers arbitrary: od)
  case Nil
  then show ?case by simp
next
  case (Cons q peers)
  then obtain orib where o: "map_of od rc = Some orib" by (auto simp: has_key_def)
  show ?case
  proof (cases "map_of orib q")
    case None
    have "has_key (AList.update rc (AList.update q [] orib) od) rc"
      by (simp add: has_key_def update_conv')
    then show ?thesis using Cons.IH [of "AList.update rc (AList.update q [] orib) od"] o None
      by simp
  next
    case (Some m)
    then show ?thesis using Cons.IH [of od] Cons.prems o by (simp add: has_key_def)
  qed
qed

lemma compare_ribs_stored:
  "stored (fst (compare_ribs d od)) rc' p x = stored od rc' p x"
proof (induction d arbitrary: od)
  case Nil
  then show ?case by simp
next
  case (Cons e d)
  obtain rc rib where e: "e = (rc, rib)" by (cases e)
  obtain od1 r where o1: "compare_peers rc (map fst rib) od = (od1, r)"
    by (cases "compare_peers rc (map fst rib) od")
  have s1: "stored od1 rc' p x = stored od rc' p x"
    using compare_peers_stored [of rc "map fst rib" od rc' p x] o1 by simp
  show ?case using Cons.IH [of od1] s1 o1 by (cases r) (simp_all add: e)
qed

lemma compare_ribs_ready:
  "list_all (\<lambda>e. snd e = [] \<or> has_key od (fst e)) d \<Longrightarrow> snd (compare_ribs d od) = None"
proof (induction d arbitrary: od)
  case Nil
  then show ?case by simp
next
  case (Cons e d)
  obtain rc rib where e: "e = (rc, rib)" by (cases e)
  obtain od1 r where o1: "compare_peers rc (map fst rib) od = (od1, r)"
    by (cases "compare_peers rc (map fst rib) od")
  have "map fst rib = [] \<or> has_key od rc" using Cons.prems by (auto simp: e)
  from compare_peers_ready [OF this] have r: "r = None" using o1 by simp
  have "list_all (\<lambda>e. snd e = [] \<or> has_key od1 (fst e)) d"
    using Cons.prems compare_peers_keys [of rc "map fst rib" od] o1 by (simp add: list_all_iff)
  from Cons.IH [OF this] show ?case using o1 r by (simp add: e)
qed

lemma stripped_edge_state:
  "list_all2 (stripped_by os) xs ys \<Longrightarrow> map edge_state xs = map edge_state ys"
  by (induction rule: list_all2_induct) (auto simp: stripped_by_def edge_state_strip_isolates)

section \<open>compare\<close>

text \<open>
  C3, as the claim states it, fails. \<^verbatim>\<open>other.data[rc]\<close> is read outside the \<^verbatim>\<open>try\<close>, so
  a collector of \<^verbatim>\<open>self\<close> that \<^verbatim>\<open>other\<close> has not makes \<^verbatim>\<open>compare\<close> raise \<^verbatim>\<open>KeyError\<close>.
  And state is changed: the graph observer of \<^verbatim>\<open>self\<close> loses its isolated vertices, and
  \<^verbatim>\<open>other.data[rc]\<close>, a \<^verbatim>\<open>defaultdict\<close>, gets an empty dict for a peer it did not have.
\<close>

theorem compare_counterexample:
  "compare example_table fresh_table = ((example_table, fresh_table), Some KeyError)
   \<and> compare isolated_table truth_table
       = ((isolated_table\<lparr>observers := [ASGraphObserver ''graph'' empty_graph empty_graph]\<rparr>,
           truth_table\<lparr>data := [(''rrc00'', [(''1.2.3.4'', [])])]\<rparr>), None)
   \<and> observers isolated_table \<noteq> [ASGraphObserver ''graph'' empty_graph empty_graph]
   \<and> data truth_table \<noteq> [(''rrc00'', [(''1.2.3.4'', [])])]"
  by (simp add: compare_def example_table_def fresh_table_def isolated_table_def truth_table_def
      attach_observer_def init_RIBTable_def remove_isolates_def isolated_def empty_graph_def)

text \<open>
  C3, amended. Whether \<^verbatim>\<open>compare\<close> returns or raises, the data of \<^verbatim>\<open>self\<close>, the flags
  \<open>stop_updating\<close> of both tables and the observers of \<^verbatim>\<open>other\<close> are unchanged, no path
  stored in \<^verbatim>\<open>other\<close> has changed, and every observer of \<^verbatim>\<open>self\<close> is as it was or, only if
  it bears the name of an observer of \<^verbatim>\<open>other\<close>, as it was with the isolated vertices of
  its IPv4 graph removed, which changes a graph observer alone: the edges, counts and
  counters of every observer are unchanged. When \<^verbatim>\<open>compare\<close> returns, the observers of
  \<^verbatim>\<open>self\<close> that bear the name of an observer of \<^verbatim>\<open>other\<close> have all lost these vertices
  and the other ones are as they were. And \<^verbatim>\<open>compare\<close> returns whenever every collector
  of \<^verbatim>\<open>self\<close> that has a peer is also a collector of \<^verbatim>\<open>other\<close> and the observers of the
  same name can be compared; a peer of \<^verbatim>\<open>self\<close> that such a collector of \<^verbatim>\<open>other\<close> has not
  is then passed over without an exception.
\<close>

theorem compare_effect:
  "(compare self other = ((self', other'), r) \<longrightarrow>
      data self' = data self \<and> stop_updating self' = stop_updating self
      \<and> stop_updating other' = stop_updating other \<and> observers other' = observers other
      \<and> list_all2 (stripped_by (observers other)) (observers self') (observers self)
      \<and> map edge_state (observers self') = map edge_state (observers self)
      \<and> (\<forall>rc p x. stored (data other') rc p x = stored (data other) rc p x)
      \<and> (r = None \<longrightarrow> observers self' = strip_matched (observers other) (observers self)))
   \<and> (compare_ready self other \<longrightarrow> snd (compare self other) = None)"
proof (intro conjI impI)
  assume c: "compare self other = ((self', other'), r)"
  obtain od e where od: "compare_ribs (data self) (data other) = (od, e)"
    by (cases "compare_ribs (data self) (data other)")
  obtain own q where own: "compare_observers (observers other) (observers self) = (own, q)"
    by (cases "compare_observers (observers other) (observers self)")
  have o: "other' = other\<lparr>data := od\<rparr>"
    using c od own by (cases e) (simp_all add: compare_def)
  have s: "self' = self\<lparr>observers := (if e = None then own else observers self)\<rparr>"
    using c od own by (cases e) (auto simp: compare_def)
  have r: "r = (if e = None then q else e)"
    using c od own by (cases e) (auto simp: compare_def)
  show "data self' = data self" "stop_updating self' = stop_updating self"
    "stop_updating other' = stop_updating other" "observers other' = observers other"
    by (simp_all add: s o)
  show st: "list_all2 (stripped_by (observers other)) (observers self') (observers self)"
    using compare_observers_stripped [of "observers other" "observers self"] own
    by (simp add: s stripped_by_refl)
  show "map edge_state (observers self') = map edge_state (observers self)"
    by (rule stripped_edge_state [OF st])
  show "\<forall>rc p x. stored (data other') rc p x = stored (data other) rc p x"
    using compare_ribs_stored [of "data self" "data other"] od by (simp add: o)
  show "observers self' = strip_matched (observers other) (observers self)" if "r = None"
  proof -
    have "e = None" "q = None" using that r by (auto split: if_splits)
    then show ?thesis
      using compare_observers_None [of "observers other" "observers self"] own by (simp add: s)
  qed
next
  assume r: "compare_ready self other"
  have "snd (compare_ribs (data self) (data other)) = None"
    using r compare_ribs_ready [of "data other" "data self"] by (simp add: compare_ready_def)
  moreover have "snd (compare_observers (observers other) (observers self)) = None"
    using r compare_observers_ready [of "observers self" "observers other"]
    by (simp add: compare_ready_def)
  ultimately show "snd (compare self other) = None"
    by (cases "compare_ribs (data self) (data other)";
        cases "compare_observers (observers other) (observers self)")
       (simp add: compare_def)
qed

theorem compare_effect_witness:
  "compare_ready spare_table truth_table
   \<and> compare spare_table truth_table = ((stripped_spare_table, filled_truth_table), None)
   \<and> observers spare_table
       = [ASGraphObserver ''graph'' \<lparr>nodes = [1, 2], edges = []\<rparr> empty_graph,
          ASGraphObserver ''spare'' \<lparr>nodes = [3], edges = []\<rparr> empty_graph]
   \<and> observers stripped_spare_table
       = [ASGraphObserver ''graph'' empty_graph empty_graph,
          ASGraphObserver ''spare'' \<lparr>nodes = [3], edges = []\<rparr> empty_graph]
   \<and> list_all2 (stripped_by (observers truth_table))
        (observers stripped_spare_table) (observers spare_table)
   \<and> observers stripped_spare_table = strip_matched (observers truth_table) (observers spare_table)
   \<and> (\<forall>rc p x. stored (data filled_truth_table) rc p x = stored (data truth_table) rc p x)
   \<and> data truth_table = [(''rrc00'', [])]
   \<and> data filled_truth_table = [(''rrc00'', [(''1.2.3.4'', [])])]
   \<and> snd (compare spare_table truth_table) = None"
proof -
  have r: "compare_ready spare_table truth_table"
    by (simp add: compare_ready_def spare_table_def isolated_table_def truth_table_def has_key_def)
  have c: "compare spare_table truth_table = ((stripped_spare_table, filled_truth_table), None)"
    by (simp add: compare_def stripped_spare_table_def filled_truth_table_def spare_table_def
        isolated_table_def truth_table_def remove_isolates_def isolated_def empty_graph_def)
  have o: "observers spare_table
       = [ASGraphObserver ''graph'' \<lparr>nodes = [1, 2], edges = []\<rparr> empty_graph,
          ASGraphObserver ''spare'' \<lparr>nodes = [3], edges = []\<rparr> empty_graph]"
    "observers stripped_spare_table
       = [ASGraphObserver ''graph'' empty_graph empty_graph,
          ASGraphObserver ''spare'' \<lparr>nodes = [3], edges = []\<rparr> empty_graph]"
    "data truth_table = [(''rrc00'', [])]"
    "data filled_truth_table = [(''rrc00'', [(''1.2.3.4'', [])])]"
    by (simp_all add: stripped_spare_table_def filled_truth_table_def spare_table_def
        isolated_table_def truth_table_def)
  have "list_all2 (stripped_by (observers truth_table))
          (observers stripped_spare_table) (observers spare_table)
        \<and> observers stripped_spare_table = strip_matched (observers truth_table) (observers spare_table)
        \<and> (\<forall>rc p x. stored (data filled_truth_table) rc p x = stored (data truth_table) rc p x)
        \<and> snd (compare spare_table truth_table) = None"
    using compare_effect [of spare_table truth_table stripped_spare_table filled_truth_table None]
      c r
    by blast
  then show ?thesis using r c o by blast
qed

end
